theory Spec2Isabelle
  imports Main "HOL-Library.Sublist"
begin

section \<open>The singly-linked list (linked\_list.c)\<close>

text \<open>
  A \<open>Linked_List\<close> is the sequence of the values stored in its nodes, front first.
  Positions are 1-based \<open>int\<close>s as in the C code. The \<open>sort_sequence\<close> field of the
  list head is passed to \<open>list_insert\<close> as an argument: \<open>None\<close> is the \<open>NULL\<close> that
  \<open>calloc\<close> leaves there when \<open>list_sort_sequence\<close> is never called. The value handler
  only frees memory and is not modelled. Pointers are taken to be non-\<open>NULL\<close> and
  \<open>calloc\<close> to succeed.
\<close>

type_synonym 'a Linked_List = "'a list"

type_synonym 'a sort_sequence_func = "'a \<Rightarrow> 'a \<Rightarrow> int"

definition list_is_empty :: "'a Linked_List \<Rightarrow> bool" where
  "list_is_empty l = (l = [])"

definition list_length :: "'a Linked_List \<Rightarrow> int" where
  "list_length l = int (length l)"

text \<open>The walk of \<open>list_insert\<close> along the nodes when a sort-sequence function is set:
  the new node goes in front of the first node whose value gives \<open>sort \<le> 0\<close>, and
  behind the last node when there is none.\<close>

fun insert_walk :: "'a sort_sequence_func \<Rightarrow> 'a \<Rightarrow> 'a list \<Rightarrow> 'a list" where
  "insert_walk f v [] = [v]"
| "insert_walk f v (e # es) = (if f v e \<le> 0 then v # e # es else e # insert_walk f v es)"

definition list_insert ::
  "'a sort_sequence_func option \<Rightarrow> 'a Linked_List \<Rightarrow> 'a \<Rightarrow> 'a Linked_List" where
  "list_insert sort_sequence l v =
     (if list_is_empty l then [v]
      else case sort_sequence of
             None \<Rightarrow> v # l
           | Some f \<Rightarrow> insert_walk f v l)"

definition list_inspect :: "'a Linked_List \<Rightarrow> int \<Rightarrow> 'a option" where
  "list_inspect l pos =
     (if pos \<le> 0 \<or> pos > list_length l then None
      else Some (l ! nat (pos - 1)))"

definition list_remove :: "'a Linked_List \<Rightarrow> int \<Rightarrow> 'a Linked_List option" where
  "list_remove l pos =
     (if pos \<le> 0 \<or> pos > list_length l then None
      else Some (take (nat (pos - 1)) l @ drop (nat pos) l))"

section \<open>The Sudoku cell (sudoku\_cell.c)\<close>

text \<open>
  The fields \<open>position.grid\<close>, \<open>position.x\<close> and \<open>position.y\<close> of a cell carry the
  names of their accessor functions. They are array indices, hence \<open>nat\<close>. The
  eligible values are \<open>int\<close>s: the code uses \<open>-1\<close> as its not-found value.
\<close>

record Cell =
  cell_grid_pos :: nat
  cell_x_pos :: nat
  cell_y_pos :: nat
  eligible_values :: "int Linked_List"

definition cell_eligible_values_length :: "Cell \<Rightarrow> int" where
  "cell_eligible_values_length c = list_length (eligible_values c)"

function eligible_values_new_loop :: "int \<Rightarrow> nat \<Rightarrow> int Linked_List \<Rightarrow> int Linked_List" where
  "eligible_values_new_loop grid_size i l =
     (if int i < grid_size
      then eligible_values_new_loop grid_size (i + 1) (list_insert None l (int i + 1))
      else l)"
  by pat_completeness auto
termination
  by (relation "measure (\<lambda>(grid_size, i, l). nat (grid_size - int i))") auto

definition get_eligible_values_new :: "int \<Rightarrow> int Linked_List" where
  "get_eligible_values_new grid_size = eligible_values_new_loop grid_size 0 []"

definition cell_create :: "nat \<Rightarrow> nat \<Rightarrow> nat \<Rightarrow> int \<Rightarrow> Cell" where
  "cell_create grid x y grid_size =
     \<lparr>cell_grid_pos = grid, cell_x_pos = x, cell_y_pos = y,
      eligible_values = get_eligible_values_new grid_size\<rparr>"

definition cell_inspect_eligible_values :: "Cell \<Rightarrow> int \<Rightarrow> int" where
  "cell_inspect_eligible_values c pos =
     (case list_inspect (eligible_values c) pos of
        None \<Rightarrow> - 1
      | Some val \<Rightarrow> val)"

text \<open>\<open>cell_update_eligible_values\<close> returns \<open>NULL\<close> (here \<open>None\<close>) with the cell
  untouched, or the cell after the removal.\<close>

function cell_update_loop :: "Cell \<Rightarrow> int \<Rightarrow> int \<Rightarrow> nat \<Rightarrow> Cell option" where
  "cell_update_loop c remove_val values_size i =
     (if int i < values_size then
        (let val = cell_inspect_eligible_values c (int i + 1) in
         if val = - 1 then None
         else if val = remove_val then
           (case list_remove (eligible_values c) (int i + 1) of
              None \<Rightarrow> None
            | Some l \<Rightarrow> Some (c\<lparr>eligible_values := l\<rparr>))
         else cell_update_loop c remove_val values_size (i + 1))
      else Some c)"
  by pat_completeness auto
termination
  by (relation "measure (\<lambda>(c, remove_val, values_size, i). nat (values_size - int i))") auto

definition cell_update_eligible_values :: "Cell \<Rightarrow> int \<Rightarrow> Cell option" where
  "cell_update_eligible_values c remove_val =
     cell_update_loop c remove_val (cell_eligible_values_length c) 0"

text \<open>The three loops of \<open>set_eligible_values_duplicate\<close>. The inner loop returns the
  temporary list and the running \<open>grid_size\<close>; \<open>None\<close> is the return of \<open>-1\<close>.\<close>

function duplicate_inner_loop ::
  "int option \<Rightarrow> int Linked_List \<Rightarrow> int \<Rightarrow> nat \<Rightarrow> (int Linked_List \<times> int) option" where
  "duplicate_inner_loop original_v temp_values grid_size j =
     (if int j < grid_size then
        (case (original_v, list_inspect temp_values (int j + 1)) of
           (Some ov, Some tv) \<Rightarrow>
             if ov = tv then
               (case list_remove temp_values (int j + 1) of
                  None \<Rightarrow> None
                | Some t \<Rightarrow> Some (t, grid_size - 1))
             else duplicate_inner_loop original_v temp_values grid_size (j + 1)
         | _ \<Rightarrow> None)
      else Some (temp_values, grid_size))"
  by pat_completeness auto
termination
  by (relation "measure (\<lambda>(ov, t, grid_size, j). nat (grid_size - int j))") auto

function duplicate_outer_loop ::
  "Cell \<Rightarrow> int Linked_List \<Rightarrow> int \<Rightarrow> int \<Rightarrow> nat \<Rightarrow> int Linked_List option" where
  "duplicate_outer_loop original_cell temp_values grid_size values_size i =
     (if int i < values_size then
        (case duplicate_inner_loop
                (list_inspect (eligible_values original_cell) (int i + 1))
                temp_values grid_size 0 of
           None \<Rightarrow> None
         | Some (t, g) \<Rightarrow> duplicate_outer_loop original_cell t g values_size (i + 1))
      else Some temp_values)"
  by pat_completeness auto
termination
  by (relation "measure (\<lambda>(c, t, g, values_size, i). nat (values_size - int i))") auto

text \<open>In the last loop the C code dereferences \<open>temp_v\<close> unchecked; the position is
  within the list there, and the model returns \<open>None\<close> for the impossible other case.\<close>

function duplicate_remove_loop :: "Cell \<Rightarrow> int Linked_List \<Rightarrow> int \<Rightarrow> nat \<Rightarrow> Cell option" where
  "duplicate_remove_loop new_cell temp_values temp_size i =
     (if int i < temp_size then
        (case list_inspect temp_values (int i + 1) of
           None \<Rightarrow> None
         | Some temp_v \<Rightarrow>
             (case cell_update_eligible_values new_cell temp_v of
                None \<Rightarrow> None
              | Some c \<Rightarrow> duplicate_remove_loop c temp_values temp_size (i + 1)))
      else Some new_cell)"
  by pat_completeness auto
termination
  by (relation "measure (\<lambda>(c, t, temp_size, i). nat (temp_size - int i))") auto

definition set_eligible_values_duplicate :: "Cell \<Rightarrow> Cell \<Rightarrow> Cell option" where
  "set_eligible_values_duplicate new_cell original_cell =
     (let values_size = cell_eligible_values_length original_cell;
          grid_size = cell_eligible_values_length new_cell;
          temp_values = get_eligible_values_new grid_size
      in case duplicate_outer_loop original_cell temp_values grid_size values_size 0 of
           None \<Rightarrow> None
         | Some t \<Rightarrow> duplicate_remove_loop new_cell t (list_length t) 0)"

definition cell_duplicate :: "Cell \<Rightarrow> int \<Rightarrow> Cell option" where
  "cell_duplicate original_cell grid_size =
     set_eligible_values_duplicate
       (cell_create (cell_grid_pos original_cell) (cell_x_pos original_cell)
          (cell_y_pos original_cell) grid_size)
       original_cell"

section \<open>The solver (sudoku\_solver\_utils.c)\<close>

text \<open>
  The board \<open>int board[GRID_SIZE][Y_SIZE][X_SIZE]\<close> is the list of its 81 \<open>int\<close>s in
  memory order: \<open>board[grid][y][x]\<close> is element \<open>grid * 9 + y * 3 + x\<close>.
\<close>

type_synonym board = "int list"

abbreviation (input) GRID_SIZE :: nat where "GRID_SIZE \<equiv> 9"
abbreviation (input) X_SIZE :: nat where "X_SIZE \<equiv> 3"
abbreviation (input) Y_SIZE :: nat where "Y_SIZE \<equiv> 3"
abbreviation (input) GRIDS_IN_ROW_NUM :: nat where "GRIDS_IN_ROW_NUM \<equiv> 3"

abbreviation (input) SUCCESS_RET :: int where "SUCCESS_RET \<equiv> 1"
abbreviation (input) STALEMATE_RET :: int where "STALEMATE_RET \<equiv> 0"
abbreviation (input) ERROR_RET :: int where "ERROR_RET \<equiv> - 1"

definition board_index :: "nat \<Rightarrow> nat \<Rightarrow> nat \<Rightarrow> nat" where
  "board_index grid y x = grid * 9 + y * 3 + x"

definition board_get :: "board \<Rightarrow> nat \<Rightarrow> nat \<Rightarrow> nat \<Rightarrow> int" where
  "board_get board grid y x = board ! board_index grid y x"

definition board_put :: "board \<Rightarrow> nat \<Rightarrow> nat \<Rightarrow> nat \<Rightarrow> int \<Rightarrow> board" where
  "board_put board grid y x v = board[board_index grid y x := v]"

text \<open>The order in which the three nested \<open>for\<close> loops over \<open>grid\<close>, \<open>y\<close> and \<open>x\<close>
  visit the board.\<close>

definition scan_order :: "(nat \<times> nat \<times> nat) list" where
  "scan_order = [(grid, y, x). grid \<leftarrow> [0..<GRID_SIZE], y \<leftarrow> [0..<Y_SIZE], x \<leftarrow> [0..<X_SIZE]]"

definition empty_unknowns_list :: "board \<Rightarrow> Cell Linked_List" where
  "empty_unknowns_list board =
     fold (\<lambda>(grid, y, x) unknowns.
             if board_get board grid y x = 0
             then list_insert None unknowns (cell_create grid x y (int GRID_SIZE))
             else unknowns)
       scan_order []"

subsection \<open>Elimination method\<close>

text \<open>The \<open>update_constraints\<close> functions return their \<open>bool\<close> together with the cell
  as the removals made so far have left it.\<close>

fun update_constraints_grid_loop ::
  "board \<Rightarrow> Cell \<Rightarrow> nat \<Rightarrow> (nat \<times> nat) list \<Rightarrow> bool \<times> Cell" where
  "update_constraints_grid_loop board c grid_pos [] = (True, c)"
| "update_constraints_grid_loop board c grid_pos ((y, x) # rest) =
     (let remove_num = board_get board grid_pos y x in
      if remove_num \<noteq> 0 then
        (case cell_update_eligible_values c remove_num of
           None \<Rightarrow> (False, c)
         | Some c' \<Rightarrow> update_constraints_grid_loop board c' grid_pos rest)
      else update_constraints_grid_loop board c grid_pos rest)"

definition update_constraints_grid :: "board \<Rightarrow> Cell \<Rightarrow> nat \<Rightarrow> bool \<times> Cell" where
  "update_constraints_grid board c grid_pos =
     update_constraints_grid_loop board c grid_pos
       [(y, x). y \<leftarrow> [0..<Y_SIZE], x \<leftarrow> [0..<X_SIZE]]"

function update_constraints_row_loop ::
  "board \<Rightarrow> Cell \<Rightarrow> nat \<Rightarrow> nat \<Rightarrow> nat \<Rightarrow> nat \<Rightarrow> bool \<times> Cell" where
  "update_constraints_row_loop board c y_pos row grid x =
     (if row < GRID_SIZE then
        (let grid' = (if row mod X_SIZE = 0 \<and> row \<noteq> 0 then grid + 1 else grid);
             x' = (if row mod X_SIZE = 0 \<and> row \<noteq> 0 then 0 else x);
             remove_num = board_get board grid' y_pos x'
         in if remove_num \<noteq> 0 then
              (case cell_update_eligible_values c remove_num of
                 None \<Rightarrow> (False, c)
               | Some c' \<Rightarrow> update_constraints_row_loop board c' y_pos (row + 1) grid' (x' + 1))
            else update_constraints_row_loop board c y_pos (row + 1) grid' (x' + 1))
      else (True, c))"
  by pat_completeness auto
termination
  by (relation "measure (\<lambda>(board, c, y_pos, row, grid, x). GRID_SIZE - row)") auto

definition update_constraints_row :: "board \<Rightarrow> Cell \<Rightarrow> nat \<Rightarrow> nat \<Rightarrow> bool \<times> Cell" where
  "update_constraints_row board c grid_pos y_pos =
     update_constraints_row_loop board c y_pos 0 (grid_pos - grid_pos mod GRIDS_IN_ROW_NUM) 0"

function update_constraints_col_loop ::
  "board \<Rightarrow> Cell \<Rightarrow> nat \<Rightarrow> nat \<Rightarrow> nat \<Rightarrow> nat \<Rightarrow> bool \<times> Cell" where
  "update_constraints_col_loop board c x_pos col grid y =
     (if col < GRID_SIZE then
        (let grid' = (if col mod Y_SIZE = 0 \<and> col \<noteq> 0 then grid + 3 else grid);
             y' = (if col mod Y_SIZE = 0 \<and> col \<noteq> 0 then 0 else y);
             remove_num = board_get board grid' y' x_pos
         in if remove_num \<noteq> 0 then
              (case cell_update_eligible_values c remove_num of
                 None \<Rightarrow> (False, c)
               | Some c' \<Rightarrow> update_constraints_col_loop board c' x_pos (col + 1) grid' (y' + 1))
            else update_constraints_col_loop board c x_pos (col + 1) grid' (y' + 1))
      else (True, c))"
  by pat_completeness auto
termination
  by (relation "measure (\<lambda>(board, c, x_pos, col, grid, y). GRID_SIZE - col)") auto

definition update_constraints_col :: "board \<Rightarrow> Cell \<Rightarrow> nat \<Rightarrow> nat \<Rightarrow> bool \<times> Cell" where
  "update_constraints_col board c grid_pos x_pos =
     update_constraints_col_loop board c x_pos 0 (grid_pos mod Y_SIZE) 0"

definition update_constraints :: "board \<Rightarrow> Cell \<Rightarrow> nat \<Rightarrow> nat \<Rightarrow> nat \<Rightarrow> bool \<times> Cell" where
  "update_constraints board c grid_pos x_pos y_pos =
     (case update_constraints_grid board c grid_pos of
        (False, c1) \<Rightarrow> (False, c1)
      | (True, c1) \<Rightarrow>
          (case update_constraints_row board c1 grid_pos y_pos of
             (False, c2) \<Rightarrow> (False, c2)
           | (True, c2) \<Rightarrow> update_constraints_col board c2 grid_pos x_pos))"

text \<open>
  One run of the \<open>for\<close> loop of \<open>solve_elimination_method\<close>. The result is the value
  returned from inside the loop (\<open>None\<close> when the loop runs to its end), the board, the
  list and \<open>is_modified\<close>. The cell is updated where it sits in the list. After a
  removal the code decrements \<open>i\<close> and the loop header increments it again, so the next
  round has the same \<open>i\<close>.
\<close>

function elimination_for_loop ::
  "board \<Rightarrow> Cell Linked_List \<Rightarrow> int \<Rightarrow> nat \<Rightarrow> bool
     \<Rightarrow> int option \<times> board \<times> Cell Linked_List \<times> bool" where
  "elimination_for_loop board unknowns unknowns_size i is_modified =
     (if int i < unknowns_size then
        (case list_inspect unknowns (int i + 1) of
           None \<Rightarrow> (Some ERROR_RET, board, unknowns, is_modified)
         | Some c \<Rightarrow>
             if cell_eligible_values_length c = ERROR_RET \<or> cell_eligible_values_length c = 0
             then (Some (cell_eligible_values_length c), board, unknowns, is_modified)
             else
               (case update_constraints board c (cell_grid_pos c) (cell_x_pos c) (cell_y_pos c) of
                  (False, c') \<Rightarrow> (Some ERROR_RET, board, unknowns[i := c'], is_modified)
                | (True, c') \<Rightarrow>
                    if cell_eligible_values_length c' = ERROR_RET
                       \<or> cell_eligible_values_length c' = 0
                    then (Some (cell_eligible_values_length c'), board, unknowns[i := c'],
                          is_modified)
                    else if cell_eligible_values_length c' = 1 then
                      elimination_for_loop
                        (board_put board (cell_grid_pos c) (cell_y_pos c) (cell_x_pos c)
                           (cell_inspect_eligible_values c' 1))
                        (case list_remove (unknowns[i := c']) (int i + 1) of
                           None \<Rightarrow> unknowns[i := c']
                         | Some l \<Rightarrow> l)
                        (unknowns_size - 1) i True
                    else elimination_for_loop board (unknowns[i := c']) unknowns_size (i + 1)
                           is_modified))
      else (None, board, unknowns, is_modified))"
  by pat_completeness auto
termination
  by (relation "measure (\<lambda>(board, unknowns, unknowns_size, i, m). nat (unknowns_size - int i))")
     auto

declare elimination_for_loop.simps [simp del]

text \<open>
  The same loop as a walk over the list itself: \<open>seen\<close> holds the cells the loop has
  passed and kept, \<open>c # rest\<close> the cell at position \<open>i + 1\<close> and those behind it.
  \<open>elimination_for_loop_pass\<close> below shows that the indexed loop of the code computes
  exactly this walk.
\<close>

fun elimination_pass ::
  "board \<Rightarrow> Cell list \<Rightarrow> Cell list \<Rightarrow> bool \<Rightarrow> int option \<times> board \<times> Cell list \<times> bool" where
  "elimination_pass board seen [] m = (None, board, seen, m)"
| "elimination_pass board seen (c # rest) m =
     (if eligible_values c = [] then (Some 0, board, seen @ c # rest, m)
      else
        (case update_constraints board c (cell_grid_pos c) (cell_x_pos c) (cell_y_pos c) of
           (False, c') \<Rightarrow> (Some (- 1), board, seen @ c' # rest, m)
         | (True, c') \<Rightarrow>
             if eligible_values c' = [] then (Some 0, board, seen @ c' # rest, m)
             else if length (eligible_values c') = 1 then
               elimination_pass
                 (board_put board (cell_grid_pos c) (cell_y_pos c) (cell_x_pos c)
                    (hd (eligible_values c')))
                 seen rest True
             else elimination_pass board (seen @ [c']) rest m))"

lemma elimination_for_loop_pass:
  "i \<le> length unknowns \<Longrightarrow>
   elimination_for_loop board unknowns (list_length unknowns) i m =
   elimination_pass board (take i unknowns) (drop i unknowns) m"
proof (induction "length unknowns - i" arbitrary: board unknowns i m rule: less_induct)
  case less
  show ?case
  proof (cases "i < length unknowns")
    case False
    with less.prems show ?thesis
      by (simp add: elimination_for_loop.simps [of board unknowns] list_length_def)
  next
    case True
    let ?c = "unknowns ! i"
    have dr: "drop i unknowns = ?c # drop (Suc i) unknowns"
      using True by (simp add: Cons_nth_drop_Suc)
    have insp: "list_inspect unknowns (int i + 1) = Some ?c"
      using True by (simp add: list_inspect_def list_length_def)
    obtain ok c' where uc: "update_constraints board ?c (cell_grid_pos ?c)
        (cell_x_pos ?c) (cell_y_pos ?c) = (ok, c')"
      by force
    have upd: "unknowns[i := c'] = take i unknowns @ c' # drop (Suc i) unknowns"
      using True by (simp add: upd_conv_take_nth_drop)
    have same: "take i unknowns @ ?c # drop (Suc i) unknowns = unknowns"
      using True by (simp add: id_take_nth_drop [symmetric])
    let ?u' = "take i unknowns @ drop (Suc i) unknowns"
    have rem: "list_remove (unknowns[i := c']) (int i + 1) = Some ?u'"
      using True by (simp add: list_remove_def list_length_def nat_add_distrib)
    have len': "list_length unknowns - 1 = list_length ?u'"
      using True by (simp add: list_length_def)
    have commit: "elimination_for_loop b ?u' (int (length unknowns) - 1) i True
        = elimination_pass b (take i unknowns) (drop (Suc i) unknowns) True" for b
    proof -
      have "elimination_for_loop b ?u' (list_length ?u') i True
          = elimination_pass b (take i ?u') (drop i ?u') True"
        using True by (intro less.hyps) auto
      then show ?thesis
        using True by (simp add: len' [symmetric] min_def list_length_def)
    qed
    have step: "elimination_for_loop board (unknowns[i := c']) (int (length unknowns)) (Suc i) m
        = elimination_pass board (take i unknowns @ [c']) (drop (Suc i) unknowns) m"
    proof -
      have "elimination_for_loop board (unknowns[i := c']) (list_length (unknowns[i := c'])) (Suc i) m
          = elimination_pass board (take (Suc i) (unknowns[i := c'])) (drop (Suc i) (unknowns[i := c'])) m"
        using True by (intro less.hyps) auto
      then show ?thesis
        using True by (simp add: list_length_def take_Suc_conv_app_nth)
    qed
    have hd1: "cell_inspect_eligible_values c' 1 = hd (eligible_values c')"
      if "length (eligible_values c') = 1"
      using that by (cases "eligible_values c'")
        (simp_all add: cell_inspect_eligible_values_def list_inspect_def list_length_def)
    show ?thesis
      using True
      by (subst elimination_for_loop.simps)
         (cases ok; simp add: dr insp uc rem commit step upd [symmetric] same hd1
           cell_eligible_values_length_def list_length_def)
  qed
qed

lemma elimination_pass_length:
  "elimination_pass board seen rest m = (r, b', u', m') \<Longrightarrow>
   length u' \<le> length seen + length rest \<and>
   (m' \<and> \<not> m \<longrightarrow> length u' < length seen + length rest)"
proof (induction rest arbitrary: board seen m)
  case Nil
  then show ?case by auto
next
  case (Cons c rest)
  obtain ok c' where uc: "update_constraints board c (cell_grid_pos c)
        (cell_x_pos c) (cell_y_pos c) = (ok, c')"
    by force
  show ?case
    using Cons.prems uc
      Cons.IH [of "board_put board (cell_grid_pos c) (cell_y_pos c) (cell_x_pos c)
                    (hd (eligible_values c'))" seen True]
      Cons.IH [of board "seen @ [c']" m]
    by (cases ok) (auto split: if_splits)
qed

lemma elimination_for_loop_shrinks:
  assumes "elimination_for_loop board unknowns (list_length unknowns) 0 False = (r, b', u', True)"
  shows "length u' < length unknowns"
  using assms elimination_pass_length [of board "[]" unknowns False r b' u' True]
  by (simp add: elimination_for_loop_pass)

text \<open>
  The \<open>while (is_modified)\<close> loop: \<open>is_modified\<close> starts as \<open>true\<close>, every round resets
  it, reads the length of the list and runs the \<open>for\<close> loop.
\<close>

function elimination_while_loop :: "board \<Rightarrow> Cell Linked_List \<Rightarrow> int \<times> board \<times> Cell Linked_List" where
  "elimination_while_loop board unknowns =
     (case elimination_for_loop board unknowns (list_length unknowns) 0 False of
        (Some ret, board', unknowns', is_modified) \<Rightarrow> (ret, board', unknowns')
      | (None, board', unknowns', is_modified) \<Rightarrow>
          if is_modified then elimination_while_loop board' unknowns'
          else (SUCCESS_RET, board', unknowns'))"
  by pat_completeness auto
termination
  by (relation "measure (\<lambda>(board, unknowns). length unknowns)")
     (auto dest: elimination_for_loop_shrinks [OF sym])

declare elimination_while_loop.simps [simp del]

definition solve_elimination_method ::
  "board \<Rightarrow> Cell Linked_List \<Rightarrow> int \<times> board \<times> Cell Linked_List" where
  "solve_elimination_method board unknowns = elimination_while_loop board unknowns"

subsection \<open>Backtracking method\<close>

definition duplicate_board :: "board \<Rightarrow> board \<Rightarrow> board" where
  "duplicate_board new_board original_board =
     fold (\<lambda>(grid, y, x) b. board_put b grid y x (board_get original_board grid y x))
       scan_order new_board"

function duplicate_unknown_loop ::
  "Cell Linked_List \<Rightarrow> Cell Linked_List \<Rightarrow> int \<Rightarrow> nat \<Rightarrow> Cell Linked_List option" where
  "duplicate_unknown_loop unknowns list_new unknowns_size i =
     (if int i < unknowns_size then
        (case list_inspect unknowns (int i + 1) of
           None \<Rightarrow> None
         | Some original_cell \<Rightarrow>
             (case cell_duplicate original_cell (int GRID_SIZE) of
                None \<Rightarrow> None
              | Some new_cell \<Rightarrow>
                  duplicate_unknown_loop unknowns (list_insert None list_new new_cell)
                    unknowns_size (i + 1)))
      else Some list_new)"
  by pat_completeness auto
termination
  by (relation "measure (\<lambda>(unknowns, list_new, unknowns_size, i). nat (unknowns_size - int i))")
     auto

definition duplicate_unknown_list :: "Cell Linked_List \<Rightarrow> Cell Linked_List option" where
  "duplicate_unknown_list unknowns = duplicate_unknown_loop unknowns [] (list_length unknowns) 0"

text \<open>The local array \<open>board_duplicate\<close> starts with indeterminate contents;
  \<open>duplicate_board\<close> overwrites all of it before it is read.\<close>

definition indeterminate_board :: board where
  "indeterminate_board = replicate 81 0"

text \<open>
  The \<open>while\<close> loop of \<open>solve_backtrack_method\<close>, with the recursive call as the
  argument \<open>recurse\<close>. Results are the returned \<open>int\<close>, the caller's board and the
  caller's list; \<open>None\<close> means that the call does not return: the recursion ran out of
  depth, or the removal of \<open>val\<close> failed, in which case the C loop tests the same state
  again forever.
\<close>

function backtrack_while_loop ::
  "(board \<Rightarrow> Cell Linked_List \<Rightarrow> (int \<times> board \<times> Cell Linked_List) option)
     \<Rightarrow> board \<Rightarrow> Cell Linked_List \<Rightarrow> Cell \<Rightarrow> (int \<times> board \<times> Cell Linked_List) option" where
  "backtrack_while_loop recurse board unknowns cell =
     (if cell_eligible_values_length cell > 0 then
        (case duplicate_unknown_list unknowns of
           None \<Rightarrow> Some (ERROR_RET, board, unknowns)
         | Some unknowns_duplicate \<Rightarrow>
             (let val = cell_inspect_eligible_values cell 1;
                  cell' = (case cell_update_eligible_values cell val of
                             None \<Rightarrow> cell
                           | Some c \<Rightarrow> c);
                  board_duplicate =
                    board_put (duplicate_board indeterminate_board board)
                      (cell_grid_pos cell) (cell_y_pos cell) (cell_x_pos cell) val
              in case solve_elimination_method board_duplicate unknowns_duplicate of
                   (elret, board_duplicate', unknowns_duplicate') \<Rightarrow>
                     if elret = ERROR_RET then Some (ERROR_RET, board, unknowns)
                     else if elret = SUCCESS_RET then
                       (case recurse board_duplicate' unknowns_duplicate' of
                          None \<Rightarrow> None
                        | Some (btret, board_duplicate'', unknowns_duplicate'') \<Rightarrow>
                            if btret = ERROR_RET then Some (ERROR_RET, board, unknowns)
                            else if btret = SUCCESS_RET then
                              Some (SUCCESS_RET, duplicate_board board board_duplicate'', unknowns)
                            else if length (eligible_values cell') < length (eligible_values cell)
                            then backtrack_while_loop recurse board unknowns cell'
                            else None)
                     else if length (eligible_values cell') < length (eligible_values cell)
                     then backtrack_while_loop recurse board unknowns cell'
                     else None))
      else Some (STALEMATE_RET, board, unknowns))"
  by pat_completeness auto
termination
  by (relation "measure (\<lambda>(recurse, board, unknowns, cell). length (eligible_values cell))")
     auto

declare backtrack_while_loop.simps [simp del]

text \<open>\<open>solve_backtrack_method\<close> with a bound on the depth of its recursion: a call that
  would need more nested calls than \<open>depth\<close> gives \<open>None\<close>.\<close>

primrec solve_backtrack_method ::
  "nat \<Rightarrow> board \<Rightarrow> Cell Linked_List \<Rightarrow> (int \<times> board \<times> Cell Linked_List) option" where
  "solve_backtrack_method 0 board unknowns = None"
| "solve_backtrack_method (Suc depth) board unknowns =
     (if list_is_empty unknowns then Some (SUCCESS_RET, board, unknowns)
      else
        (case list_inspect unknowns 1 of
           None \<Rightarrow> Some (ERROR_RET, board, unknowns)
         | Some temp_cell \<Rightarrow>
             if cell_eligible_values_length temp_cell = ERROR_RET
                \<or> cell_eligible_values_length temp_cell = 0
             then Some (cell_eligible_values_length temp_cell, board, unknowns)
             else
               (case cell_duplicate temp_cell (int GRID_SIZE) of
                  None \<Rightarrow> Some (ERROR_RET, board, unknowns)
                | Some cell \<Rightarrow>
                    backtrack_while_loop (solve_backtrack_method depth) board
                      (case list_remove unknowns 1 of None \<Rightarrow> unknowns | Some l \<Rightarrow> l)
                      cell)))"

text \<open>\<open>solve_sudoku\<close> either returns, leaving the board as given here, or ends the
  program through \<open>run_time_error\<close>.\<close>

datatype outcome = Returned board | Run_time_error string

definition solve_sudoku :: "nat \<Rightarrow> board \<Rightarrow> outcome option" where
  "solve_sudoku depth board =
     (let unknowns = empty_unknowns_list board in
      if list_is_empty unknowns then Some (Returned board)
      else
        (case solve_elimination_method board unknowns of
           (elret, board', unknowns') \<Rightarrow>
             if elret = ERROR_RET
             then Some (Run_time_error ''Failed to execute elimination method.'')
             else
               (case solve_backtrack_method depth board' unknowns' of
                  None \<Rightarrow> None
                | Some (btret, board'', unknowns'') \<Rightarrow>
                    if btret = ERROR_RET
                    then Some (Run_time_error ''Failed to execute backtracking method.'')
                    else Some (Returned board''))))"

section \<open>Properties of the list and the cell\<close>

declare eligible_values_new_loop.simps [simp del]
declare cell_update_loop.simps [simp del]
declare duplicate_inner_loop.simps [simp del]
declare duplicate_outer_loop.simps [simp del]
declare duplicate_remove_loop.simps [simp del]

lemma list_insert_front [simp]: "list_insert None l v = v # l"
  by (simp add: list_insert_def list_is_empty_def)

lemma eligible_values_new_loop_eq:
  "i \<le> n \<Longrightarrow> eligible_values_new_loop (int n) i l = rev (map (\<lambda>k. int k + 1) [i..<n]) @ l"
proof (induction "n - i" arbitrary: i l)
  case 0
  then show ?case
    by (simp add: eligible_values_new_loop.simps [of _ i])
next
  case (Suc d)
  then have "i < n" and "d = n - Suc i" by simp_all
  then show ?case
    using Suc.hyps(1) [of "Suc i" "(int i + 1) # l"]
    by (subst eligible_values_new_loop.simps) (simp add: upt_conv_Cons)
qed

lemma get_eligible_values_new_eq:
  "get_eligible_values_new (int n) = rev (map (\<lambda>k. int k + 1) [0..<n])"
  by (simp add: get_eligible_values_new_def eligible_values_new_loop_eq)

lemma get_eligible_values_new_9:
  "get_eligible_values_new 9 = [9, 8, 7, 6, 5, 4, 3, 2, 1]"
  using get_eligible_values_new_eq [of 9] by (simp add: upt_rec)

lemma list_inspect_nth:
  "i < length l \<Longrightarrow> list_inspect l (int i + 1) = Some (l ! i)"
  by (simp add: list_inspect_def list_length_def)

lemma list_remove_nth:
  "i < length l \<Longrightarrow> list_remove l (int i + 1) = Some (take i l @ drop (Suc i) l)"
  by (simp add: list_remove_def list_length_def nat_add_distrib)

lemma remove1_drop_step:
  "i < length l \<Longrightarrow> l ! i \<noteq> v \<Longrightarrow>
   take i l @ remove1 v (drop i l) = take (Suc i) l @ remove1 v (drop (Suc i) l)"
  by (simp add: Cons_nth_drop_Suc [symmetric] take_Suc_conv_app_nth)

lemma remove1_drop_hit:
  "i < length l \<Longrightarrow> l ! i = v \<Longrightarrow> remove1 v (drop i l) = drop (Suc i) l"
  by (auto simp add: Cons_nth_drop_Suc [symmetric])

lemma cell_update_loop_eq:
  "i \<le> length (eligible_values c) \<Longrightarrow> - 1 \<notin> set (drop i (eligible_values c)) \<Longrightarrow>
   cell_update_loop c v (int (length (eligible_values c))) i =
   Some (c\<lparr>eligible_values :=
             take i (eligible_values c) @ remove1 v (drop i (eligible_values c))\<rparr>)"
proof (induction "length (eligible_values c) - i" arbitrary: i)
  case 0
  then show ?case
    by (simp add: cell_update_loop.simps [of c v _ i])
next
  case (Suc d)
  then have lt: "i < length (eligible_values c)" and d: "d = length (eligible_values c) - Suc i"
    by simp_all
  have ne: "eligible_values c ! i \<noteq> - 1"
    using Suc.prems(2) lt by (metis Cons_nth_drop_Suc list.set_intros(1))
  have rest: "- 1 \<notin> set (drop (Suc i) (eligible_values c))"
    using Suc.prems(2) lt by (metis Cons_nth_drop_Suc list.set_intros(2))
  show ?case
    using lt ne Suc.hyps(1) [OF d _ rest]
    by (subst cell_update_loop.simps)
       (simp add: cell_inspect_eligible_values_def list_inspect_nth list_remove_nth
          remove1_drop_step remove1_drop_hit)
qed

lemma cell_update_eligible_values_eq:
  "- 1 \<notin> set (eligible_values c) \<Longrightarrow>
   cell_update_eligible_values c v = Some (c\<lparr>eligible_values := remove1 v (eligible_values c)\<rparr>)"
  using cell_update_loop_eq [of 0 c v]
  by (simp add: cell_update_eligible_values_def cell_eligible_values_length_def list_length_def)

lemma duplicate_inner_loop_eq:
  "j \<le> length t \<Longrightarrow> r = take j t @ remove1 ov (drop j t) \<Longrightarrow>
   duplicate_inner_loop (Some ov) t (int (length t)) j = Some (r, int (length r))"
proof (induction "length t - j" arbitrary: j)
  case 0
  then show ?case
    by (simp add: duplicate_inner_loop.simps [of _ t _ j])
next
  case (Suc d)
  then have lt: "j < length t" and d: "d = length t - Suc j"
    by simp_all
  show ?case
  proof (cases "ov = t ! j")
    case True
    then have "r = take j t @ drop (Suc j) t"
      using lt Suc.prems(2) by (simp add: remove1_drop_hit)
    then show ?thesis
      using lt True
      by (subst duplicate_inner_loop.simps) (simp add: list_inspect_nth list_remove_nth)
  next
    case False
    then have "r = take (Suc j) t @ remove1 ov (drop (Suc j) t)"
      using lt Suc.prems(2) remove1_drop_step [of j t ov] by simp
    then have "duplicate_inner_loop (Some ov) t (int (length t)) (Suc j) = Some (r, int (length r))"
      using lt by (intro Suc.hyps(1) [OF d]) simp_all
    then show ?thesis
      using lt False
      by (subst duplicate_inner_loop.simps) (simp add: list_inspect_nth)
  qed
qed

lemma duplicate_outer_loop_eq:
  "i \<le> length (eligible_values c) \<Longrightarrow>
   duplicate_outer_loop c t (int (length t)) (int (length (eligible_values c))) i =
   Some (fold remove1 (drop i (eligible_values c)) t)"
proof (induction "length (eligible_values c) - i" arbitrary: i t)
  case 0
  then show ?case
    by (simp add: duplicate_outer_loop.simps [of c t _ _ i])
next
  case (Suc d)
  then have lt: "i < length (eligible_values c)" and d: "d = length (eligible_values c) - Suc i"
    by simp_all
  show ?case
    using lt Suc.hyps(1) [OF d, of "remove1 (eligible_values c ! i) t"]
      duplicate_inner_loop_eq [of 0 t "remove1 (eligible_values c ! i) t" "eligible_values c ! i"]
    by (subst duplicate_outer_loop.simps)
       (simp add: list_inspect_nth Cons_nth_drop_Suc [symmetric])
qed

lemma fold_remove1_notin:
  "- 1 \<notin> set l \<Longrightarrow> - 1 \<notin> set (fold remove1 xs (l :: int list))"
  by (induction xs arbitrary: l) (auto dest: notin_set_remove1)

lemma duplicate_remove_loop_eq:
  "i \<le> length t \<Longrightarrow> - 1 \<notin> set (eligible_values c) \<Longrightarrow>
   duplicate_remove_loop c t (int (length t)) i =
   Some (c\<lparr>eligible_values := fold remove1 (drop i t) (eligible_values c)\<rparr>)"
proof (induction "length t - i" arbitrary: i c)
  case 0
  then show ?case
    by (simp add: duplicate_remove_loop.simps [of c t _ i])
next
  case (Suc d)
  then have lt: "i < length t" and d: "d = length t - Suc i"
    by simp_all
  have ne: "- 1 \<notin> set (remove1 (t ! i) (eligible_values c))"
    using Suc.prems(2) by (auto dest: notin_set_remove1)
  show ?case
    using lt Suc.hyps(1) [OF d, of "c\<lparr>eligible_values := remove1 (t ! i) (eligible_values c)\<rparr>"]
      ne Suc.prems(2)
    by (subst duplicate_remove_loop.simps)
       (simp add: list_inspect_nth cell_update_eligible_values_eq Cons_nth_drop_Suc [symmetric])
qed

lemma fold_remove1_filter:
  "distinct ys \<Longrightarrow> fold remove1 xs ys = filter (\<lambda>v. v \<notin> set xs) ys"
proof (induction xs arbitrary: ys)
  case Nil
  then show ?case by simp
next
  case (Cons a xs)
  then show ?case
    by (simp add: distinct_remove1_removeAll removeAll_filter_not_eq conj_commute eq_commute)
qed

lemma distinct_eligible_values_new: "distinct (get_eligible_values_new (int n))"
  by (simp add: get_eligible_values_new_eq distinct_map inj_on_def)

lemma set_eligible_values_new: "set (get_eligible_values_new (int n)) = {1..int n}"
proof -
  have "(\<lambda>k. int k + 1) ` {0..<n} = {1..int n}"
  proof (intro set_eqI iffI)
    fix v assume "v \<in> {1..int n}"
    then have "v = int (nat (v - 1)) + 1" and "nat (v - 1) \<in> {0..<n}" by auto
    then show "v \<in> (\<lambda>k. int k + 1) ` {0..<n}" by blast
  qed auto
  then show ?thesis
    by (simp add: get_eligible_values_new_eq)
qed

lemma cell_duplicate_eq:
  "cell_duplicate c (int n) =
   Some \<lparr>cell_grid_pos = cell_grid_pos c, cell_x_pos = cell_x_pos c, cell_y_pos = cell_y_pos c,
         eligible_values =
           filter (\<lambda>v. v \<in> set (eligible_values c)) (get_eligible_values_new (int n))\<rparr>"
proof -
  let ?new = "get_eligible_values_new (int n)"
  have len: "int (length ?new) = int n"
    by (simp add: get_eligible_values_new_eq)
  have no: "- 1 \<notin> set ?new"
    by (simp add: set_eligible_values_new)
  have outer: "duplicate_outer_loop c ?new (int (length ?new)) (int (length (eligible_values c))) 0
      = Some (filter (\<lambda>v. v \<notin> set (eligible_values c)) ?new)"
    by (simp add: duplicate_outer_loop_eq fold_remove1_filter distinct_eligible_values_new)
  have "filter (\<lambda>v. v \<notin> set (filter (\<lambda>v. v \<notin> set (eligible_values c)) ?new)) ?new
      = filter (\<lambda>v. v \<in> set (eligible_values c)) ?new"
    by (rule filter_cong) auto
  then show ?thesis
    using outer no len
    by (simp add: cell_duplicate_def set_eligible_values_duplicate_def cell_create_def
        cell_eligible_values_length_def list_length_def duplicate_remove_loop_eq
        fold_remove1_filter distinct_eligible_values_new)
qed


lemma cell_duplicate_total: "\<exists>d. cell_duplicate c (int n) = Some d"
  by (simp add: cell_duplicate_eq)

lemma cell_duplicate_pos:
  assumes "cell_duplicate c (int n) = Some d"
  shows "cell_grid_pos d = cell_grid_pos c" "cell_x_pos d = cell_x_pos c"
    "cell_y_pos d = cell_y_pos c"
  using assms by (auto simp: cell_duplicate_eq)

lemma cell_duplicate_set:
  assumes "cell_duplicate c (int n) = Some d"
  shows "set (eligible_values d) = set (eligible_values c) \<inter> {1..int n}"
  using assms by (auto simp: cell_duplicate_eq set_eligible_values_new)

lemma cell_duplicate_sorted:
  assumes "cell_duplicate c 9 = Some d"
  shows "sorted_wrt (>) (eligible_values d)"
proof -
  have "sorted_wrt (>) (get_eligible_values_new (int 9))"
    by (simp add: get_eligible_values_new_9)
  then have "sorted_wrt (>) (filter (\<lambda>v. v \<in> set (eligible_values c))
      (get_eligible_values_new (int 9)))"
    by (rule sorted_wrt_filter)
  then show ?thesis
    using assms cell_duplicate_eq [of c 9] by auto
qed

lemma hd_descending_Max:
  "sorted_wrt (>) (a # l) \<Longrightarrow> Max (set (a # l)) = (a :: int)"
  by (intro Max_eqI) auto

lemma cell_inspect_first:
  "eligible_values c = a # l \<Longrightarrow> cell_inspect_eligible_values c 1 = a"
  by (simp add: cell_inspect_eligible_values_def list_inspect_def list_length_def)

text \<open>
  Claim C9. For a cell whose eligible values are distinct digits from 1 to 9,
  \<open>cell_duplicate\<close> returns a cell with the same grid, x and y position whose eligible
  values have exactly the same members.
\<close>

theorem cell_duplicate_members:
  assumes "set (eligible_values original_cell) \<subseteq> {1..9}"
    and "distinct (eligible_values original_cell)"
  shows "\<exists>new_cell. cell_duplicate original_cell 9 = Some new_cell \<and>
           cell_grid_pos new_cell = cell_grid_pos original_cell \<and>
           cell_x_pos new_cell = cell_x_pos original_cell \<and>
           cell_y_pos new_cell = cell_y_pos original_cell \<and>
           set (eligible_values new_cell) = set (eligible_values original_cell)"
proof -
  obtain d where d: "cell_duplicate original_cell (int 9) = Some d"
    using cell_duplicate_total by blast
  then show ?thesis
    using assms(1) cell_duplicate_pos [OF d] cell_duplicate_set [OF d] by auto
qed

theorem cell_duplicate_members_witness:
  "cell_duplicate \<lparr>cell_grid_pos = 7, cell_x_pos = 0, cell_y_pos = 1, eligible_values = [4, 9, 1]\<rparr> 9
     = Some \<lparr>cell_grid_pos = 7, cell_x_pos = 0, cell_y_pos = 1, eligible_values = [9, 4, 1]\<rparr> \<and>
   set [9, 4, 1 :: int] = set [4, 9, 1]"
proof -
  let ?c = "\<lparr>cell_grid_pos = 7, cell_x_pos = 0, cell_y_pos = 1, eligible_values = [4, 9, 1]\<rparr>"
  have "cell_duplicate ?c 9 = Some \<lparr>cell_grid_pos = 7, cell_x_pos = 0, cell_y_pos = 1,
      eligible_values = [9, 4, 1]\<rparr>"
    using cell_duplicate_eq [of ?c 9] by (simp add: get_eligible_values_new_9)
  then show ?thesis
    using cell_duplicate_members [of ?c] by auto
qed

section \<open>The scans of the elimination method\<close>

declare update_constraints_row_loop.simps [simp del]
declare update_constraints_col_loop.simps [simp del]

text \<open>The three scans of \<open>update_constraints\<close> as one walk over board indices.\<close>

fun update_walk :: "board \<Rightarrow> Cell \<Rightarrow> nat list \<Rightarrow> bool \<times> Cell" where
  "update_walk board c [] = (True, c)"
| "update_walk board c (p # ps) =
     (if board ! p \<noteq> 0 then
        (case cell_update_eligible_values c (board ! p) of
           None \<Rightarrow> (False, c)
         | Some c' \<Rightarrow> update_walk board c' ps)
      else update_walk board c ps)"

definition grid_indices :: "nat \<Rightarrow> nat list" where
  "grid_indices grid_pos = map (\<lambda>k. board_index grid_pos (k div 3) (k mod 3)) [0..<9]"

definition row_indices :: "nat \<Rightarrow> nat \<Rightarrow> nat list" where
  "row_indices grid_pos y_pos =
     map (\<lambda>k. board_index (grid_pos - grid_pos mod 3 + k div 3) y_pos (k mod 3)) [0..<9]"

definition col_indices :: "nat \<Rightarrow> nat \<Rightarrow> nat list" where
  "col_indices grid_pos x_pos =
     map (\<lambda>k. board_index (grid_pos mod 3 + 3 * (k div 3)) (k mod 3) x_pos) [0..<9]"

lemma update_walk_append:
  "update_walk board c (ps @ qs) =
   (case update_walk board c ps of
      (False, c') \<Rightarrow> (False, c')
    | (True, c') \<Rightarrow> update_walk board c' qs)"
  by (induction ps arbitrary: c) (auto split: option.splits)

lemma update_constraints_grid_loop_walk:
  "update_constraints_grid_loop board c grid_pos yxs =
   update_walk board c (map (\<lambda>(y, x). board_index grid_pos y x) yxs)"
  by (induction yxs arbitrary: c) (auto simp: board_get_def split: option.splits)

lemma update_constraints_grid_walk:
  "update_constraints_grid board c grid_pos = update_walk board c (grid_indices grid_pos)"
proof -
  have "map (\<lambda>(y, x). board_index grid_pos y x) [(y, x). y \<leftarrow> [0..<3], x \<leftarrow> [0..<3]]
      = grid_indices grid_pos"
    by (simp add: grid_indices_def upt_rec board_index_def)
  then show ?thesis
    by (simp add: update_constraints_grid_def update_constraints_grid_loop_walk)
qed

lemma update_constraints_row_loop_walk:
  "row \<le> 9 \<Longrightarrow>
   (if row mod 3 = 0 \<and> row \<noteq> 0 then grid + 1 else grid) = g0 + row div 3 \<Longrightarrow>
   (if row mod 3 = 0 \<and> row \<noteq> 0 then 0 else x) = row mod 3 \<Longrightarrow>
   update_constraints_row_loop board c y_pos row grid x =
   update_walk board c (map (\<lambda>k. board_index (g0 + k div 3) y_pos (k mod 3)) [row..<9])"
proof (induction "9 - row" arbitrary: row grid x c)
  case 0
  then show ?case
    by (subst update_constraints_row_loop.simps) simp
next
  case (Suc d)
  then have lt: "row < 9" and d: "d = 9 - Suc row"
    by simp_all
  let ?grid = "g0 + row div 3" and ?x = "row mod 3"
  have g: "(if Suc row mod 3 = 0 \<and> Suc row \<noteq> 0 then ?grid + 1 else ?grid) = g0 + Suc row div 3"
    by (auto simp: mod_Suc div_Suc)
  have x: "(if Suc row mod 3 = 0 \<and> Suc row \<noteq> 0 then 0 else ?x + 1) = Suc row mod 3"
    by (auto simp: mod_Suc)
  have nxt: "update_constraints_row_loop board c' y_pos (Suc row) ?grid (?x + 1) =
      update_walk board c' (map (\<lambda>k. board_index (g0 + k div 3) y_pos (k mod 3)) [Suc row..<9])"
    for c'
    using lt by (intro Suc.hyps(1) [OF d] g x) simp
  show ?case
    using lt Suc.prems(2,3) nxt
    by (subst update_constraints_row_loop.simps)
       (auto simp: upt_conv_Cons board_get_def Let_def split: option.splits)
qed

lemma update_constraints_row_walk:
  "update_constraints_row board c grid_pos y_pos = update_walk board c (row_indices grid_pos y_pos)"
  using update_constraints_row_loop_walk [of 0 "grid_pos - grid_pos mod 3" "grid_pos - grid_pos mod 3" 0]
  by (simp add: update_constraints_row_def row_indices_def)

lemma update_constraints_col_loop_walk:
  "col \<le> 9 \<Longrightarrow>
   (if col mod 3 = 0 \<and> col \<noteq> 0 then grid + 3 else grid) = g0 + 3 * (col div 3) \<Longrightarrow>
   (if col mod 3 = 0 \<and> col \<noteq> 0 then 0 else y) = col mod 3 \<Longrightarrow>
   update_constraints_col_loop board c x_pos col grid y =
   update_walk board c (map (\<lambda>k. board_index (g0 + 3 * (k div 3)) (k mod 3) x_pos) [col..<9])"
proof (induction "9 - col" arbitrary: col grid y c)
  case 0
  then show ?case
    by (subst update_constraints_col_loop.simps) simp
next
  case (Suc d)
  then have lt: "col < 9" and d: "d = 9 - Suc col"
    by simp_all
  let ?grid = "g0 + 3 * (col div 3)" and ?y = "col mod 3"
  have g: "(if Suc col mod 3 = 0 \<and> Suc col \<noteq> 0 then ?grid + 3 else ?grid)
      = g0 + 3 * (Suc col div 3)"
    by (auto simp: mod_Suc div_Suc)
  have y: "(if Suc col mod 3 = 0 \<and> Suc col \<noteq> 0 then 0 else ?y + 1) = Suc col mod 3"
    by (auto simp: mod_Suc)
  have nxt: "update_constraints_col_loop board c' x_pos (Suc col) ?grid (?y + 1) =
      update_walk board c' (map (\<lambda>k. board_index (g0 + 3 * (k div 3)) (k mod 3) x_pos) [Suc col..<9])"
    for c'
    using lt by (intro Suc.hyps(1) [OF d] g y) simp
  show ?case
    using lt Suc.prems(2,3) nxt
    by (subst update_constraints_col_loop.simps)
       (auto simp: upt_conv_Cons board_get_def Let_def split: option.splits)
qed

lemma update_constraints_col_walk:
  "update_constraints_col board c grid_pos x_pos = update_walk board c (col_indices grid_pos x_pos)"
  using update_constraints_col_loop_walk [of 0 "grid_pos mod 3" "grid_pos mod 3" 0]
  by (simp add: update_constraints_col_def col_indices_def)

definition scope_indices :: "nat \<Rightarrow> nat \<Rightarrow> nat \<Rightarrow> nat list" where
  "scope_indices grid_pos x_pos y_pos =
     grid_indices grid_pos @ row_indices grid_pos y_pos @ col_indices grid_pos x_pos"

lemma update_constraints_walk:
  "update_constraints board c grid_pos x_pos y_pos =
   update_walk board c (scope_indices grid_pos x_pos y_pos)"
  by (simp add: update_constraints_def scope_indices_def update_walk_append
      update_constraints_grid_walk update_constraints_row_walk update_constraints_col_walk
      split: prod.splits bool.splits)

section \<open>Positions of the cells in the list\<close>

definition cell_index :: "Cell \<Rightarrow> nat" where
  "cell_index c = board_index (cell_grid_pos c) (cell_y_pos c) (cell_x_pos c)"

lemma cell_update_eligible_values_pos:
  "cell_update_eligible_values c v = Some c' \<Longrightarrow>
   cell_grid_pos c' = cell_grid_pos c \<and> cell_x_pos c' = cell_x_pos c \<and> cell_y_pos c' = cell_y_pos c"
proof -
  have "cell_update_loop c v n i = Some c' \<Longrightarrow>
    cell_grid_pos c' = cell_grid_pos c \<and> cell_x_pos c' = cell_x_pos c \<and> cell_y_pos c' = cell_y_pos c"
    for n i
    by (induction c v n i rule: cell_update_loop.induct)
       (subst (asm) cell_update_loop.simps, auto simp: Let_def split: if_splits option.splits)
  then show "cell_update_eligible_values c v = Some c' \<Longrightarrow> ?thesis"
    by (simp add: cell_update_eligible_values_def)
qed

lemma update_walk_pos:
  "update_walk board c ps = (ok, c') \<Longrightarrow>
   cell_grid_pos c' = cell_grid_pos c \<and> cell_x_pos c' = cell_x_pos c \<and> cell_y_pos c' = cell_y_pos c"
  by (induction ps arbitrary: c)
     (auto split: if_splits option.splits dest: cell_update_eligible_values_pos)

lemma update_constraints_pos:
  "update_constraints board c g x y = (ok, c') \<Longrightarrow>
   cell_grid_pos c' = cell_grid_pos c \<and> cell_x_pos c' = cell_x_pos c \<and> cell_y_pos c' = cell_y_pos c"
  by (simp add: update_constraints_walk update_walk_pos)

lemma update_constraints_index:
  "update_constraints board c g x y = (ok, c') \<Longrightarrow> cell_index c' = cell_index c"
  by (simp add: cell_index_def update_constraints_pos)

lemma elimination_pass_subseq:
  "elimination_pass board seen rest m = (r, b', u', m') \<Longrightarrow>
   subseq (map cell_index u') (map cell_index (seen @ rest))"
proof (induction rest arbitrary: board seen m)
  case Nil
  then show ?case by auto
next
  case (Cons c rest)
  obtain ok c' where uc: "update_constraints board c (cell_grid_pos c)
        (cell_x_pos c) (cell_y_pos c) = (ok, c')"
    by force
  have ci: "cell_index c' = cell_index c"
    using uc by (rule update_constraints_index)
  have drop: "subseq (map cell_index (seen @ rest)) (map cell_index (seen @ c # rest))"
    by (auto intro!: list_emb_append_mono)
  show ?case
    using Cons.prems uc ci
      Cons.IH [of "board_put board (cell_grid_pos c) (cell_y_pos c) (cell_x_pos c)
                    (hd (eligible_values c'))" seen True]
      Cons.IH [of board "seen @ [c']" m]
      subseq_order.trans [OF _ drop]
    by (cases ok) (auto split: if_splits)
qed


lemma elimination_while_loop_induct [consumes 1, case_names return fixpoint again]:
  assumes run: "elimination_while_loop board unknowns = (ret, b', u')"
    and return: "\<And>board unknowns r b' u' m.
      elimination_pass board [] unknowns False = (Some r, b', u', m) \<Longrightarrow> P board unknowns r b' u'"
    and fixpoint: "\<And>board unknowns b' u'.
      elimination_pass board [] unknowns False = (None, b', u', False) \<Longrightarrow> P board unknowns 1 b' u'"
    and again: "\<And>board unknowns b1 u1 ret b' u'.
      elimination_pass board [] unknowns False = (None, b1, u1, True) \<Longrightarrow>
      elimination_while_loop b1 u1 = (ret, b', u') \<Longrightarrow>
      P b1 u1 ret b' u' \<Longrightarrow> P board unknowns ret b' u'"
  shows "P board unknowns ret b' u'"
  using run
proof (induction "length unknowns" arbitrary: board unknowns rule: less_induct)
  case less
  obtain r b1 u1 m where pass: "elimination_pass board [] unknowns False = (r, b1, u1, m)"
    by (metis prod_cases4)
  then have loop: "elimination_for_loop board unknowns (list_length unknowns) 0 False = (r, b1, u1, m)"
    by (simp add: elimination_for_loop_pass)
  show ?case
  proof (cases r)
    case (Some v)
    then show ?thesis
      using less.prems loop pass return [of board unknowns v b1 u1 m]
      by (subst (asm) elimination_while_loop.simps) simp
  next
    case None
    show ?thesis
    proof (cases m)
      case False
      then show ?thesis
        using less.prems loop pass None fixpoint [of board unknowns b1 u1]
        by (subst (asm) elimination_while_loop.simps) simp
    next
      case True
      then have shorter: "length u1 < length unknowns"
        using loop None by (auto dest: elimination_for_loop_shrinks)
      have rest: "elimination_while_loop b1 u1 = (ret, b', u')"
        using less.prems loop None True
        by (subst (asm) elimination_while_loop.simps) simp
      show ?thesis
        using again [of board unknowns b1 u1 ret b' u'] pass None True rest
          less.hyps [OF shorter rest]
        by simp
    qed
  qed
qed

lemma solve_elimination_method_subseq:
  assumes "solve_elimination_method board unknowns = (ret, b', u')"
  shows "subseq (map cell_index u') (map cell_index unknowns)"
proof -
  from assms have "elimination_while_loop board unknowns = (ret, b', u')"
    by (simp add: solve_elimination_method_def)
  then show ?thesis
  proof (induction rule: elimination_while_loop_induct)
    case (again board unknowns b1 u1 ret b' u')
    then show ?case
      using elimination_pass_subseq [of board "[]" unknowns False None b1 u1 True]
      by (auto intro: subseq_order.trans)
  qed (auto dest: elimination_pass_subseq)
qed

lemma solve_elimination_method_length:
  assumes "solve_elimination_method board unknowns = (ret, b', u')"
  shows "length u' \<le> length unknowns"
  using solve_elimination_method_subseq [OF assms] list_emb_length by fastforce

section \<open>The list of unknown cells\<close>

lemma fold_insert_front:
  "fold (\<lambda>p acc. if P p then list_insert None acc (f p) else acc) xs acc
   = rev (map f (filter P xs)) @ acc"
  by (induction xs arbitrary: acc) auto

lemma empty_unknowns_list_eq:
  "empty_unknowns_list board =
   rev (map (\<lambda>(grid, y, x). cell_create grid x y 9)
          (filter (\<lambda>(grid, y, x). board_get board grid y x = 0) scan_order))"
proof -
  have "(\<lambda>(grid, y, x) unknowns.
          if board_get board grid y x = 0
          then list_insert None unknowns (cell_create grid x y (int 9)) else unknowns)
      = (\<lambda>p acc. if (\<lambda>(grid, y, x). board_get board grid y x = 0) p
                   then list_insert None acc ((\<lambda>(grid, y, x). cell_create grid x y 9) p)
                   else acc)"
    by (auto simp: fun_eq_iff)
  then show ?thesis
    unfolding empty_unknowns_list_def by (simp only: fold_insert_front append_Nil2)
qed

lemma scan_order_indices:
  "map (\<lambda>(grid, y, x). board_index grid y x) scan_order = [0..<81]"
  by (simp add: scan_order_def board_index_def upt_rec)

lemma cell_index_cell_create [simp]:
  "cell_index (cell_create grid x y n) = board_index grid y x"
  by (simp add: cell_index_def cell_create_def)

lemma empty_unknowns_list_indices:
  "map cell_index (empty_unknowns_list board) = rev (filter (\<lambda>i. board ! i = 0) [0..<81])"
proof -
  have "map cell_index (empty_unknowns_list board)
      = rev (map (\<lambda>(grid, y, x). board_index grid y x)
          (filter (\<lambda>(grid, y, x). board_get board grid y x = 0) scan_order))"
    by (simp add: empty_unknowns_list_eq rev_map case_prod_unfold comp_def)
  also have "filter (\<lambda>(grid, y, x). board_get board grid y x = 0) scan_order
      = filter ((\<lambda>i. board ! i = 0) \<circ> (\<lambda>(grid, y, x). board_index grid y x)) scan_order"
    by (rule filter_cong) (auto simp: board_get_def)
  also have "map (\<lambda>(grid, y, x). board_index grid y x) \<dots>
      = filter (\<lambda>i. board ! i = 0) (map (\<lambda>(grid, y, x). board_index grid y x) scan_order)"
    by (simp add: filter_map)
  finally show ?thesis
    by (simp add: scan_order_indices)
qed

declare duplicate_unknown_loop.simps [simp del]

lemma duplicate_unknown_loop_eq:
  "i \<le> length unknowns \<Longrightarrow>
   duplicate_unknown_loop unknowns acc (int (length unknowns)) i =
   Some (rev (map (\<lambda>c. the (cell_duplicate c 9)) (drop i unknowns)) @ acc)"
proof (induction "length unknowns - i" arbitrary: i acc)
  case 0
  then show ?case
    by (subst duplicate_unknown_loop.simps) simp
next
  case (Suc d)
  then have lt: "i < length unknowns" and d: "d = length unknowns - Suc i"
    by simp_all
  obtain n where n: "cell_duplicate (unknowns ! i) (int 9) = Some n"
    using cell_duplicate_total by blast
  show ?case
    using lt n Suc.hyps(1) [OF d, of "n # acc"]
    by (subst duplicate_unknown_loop.simps)
       (simp add: list_inspect_nth Cons_nth_drop_Suc [symmetric])
qed

lemma duplicate_unknown_list_eq:
  "duplicate_unknown_list unknowns = Some (rev (map (\<lambda>c. the (cell_duplicate c 9)) unknowns))"
  using duplicate_unknown_loop_eq [of 0 unknowns "[]"]
  by (simp add: duplicate_unknown_list_def list_length_def)

lemma cell_index_duplicate:
  "cell_index (the (cell_duplicate c 9)) = cell_index c"
  using cell_duplicate_eq [of c 9] by (simp add: cell_index_def)

lemma duplicate_unknown_list_indices:
  "duplicate_unknown_list unknowns = Some ud \<Longrightarrow> map cell_index ud = rev (map cell_index unknowns)"
  by (auto simp: duplicate_unknown_list_eq rev_map cell_index_duplicate)

text \<open>
  Claim C3, as amended. The list built by \<open>empty_unknowns_list\<close> holds exactly one cell
  for every board position that holds 0, each with the full eligible values, in the
  reverse of the order of creation: the cell of the zero position that the scan of the
  board meets last is at list position 1. The list is never sorted again: the
  elimination method and \<open>list_remove\<close> only take cells out and keep the others in
  their order. A list made by \<open>duplicate_unknown_list\<close> holds the cells of its original
  in reverse order.
\<close>

theorem unknowns_reverse_creation_order:
  "map cell_index (empty_unknowns_list board) = rev (filter (\<lambda>i. board ! i = 0) [0..<81]) \<and>
   (\<forall>c \<in> set (empty_unknowns_list board). eligible_values c = [9, 8, 7, 6, 5, 4, 3, 2, 1]) \<and>
   (solve_elimination_method board unknowns = (ret, board', unknowns') \<longrightarrow>
      subseq (map cell_index unknowns') (map cell_index unknowns)) \<and>
   (list_remove unknowns pos = Some unknowns' \<longrightarrow>
      subseq (map cell_index unknowns') (map cell_index unknowns)) \<and>
   (duplicate_unknown_list unknowns = Some unknowns_duplicate \<longrightarrow>
      map cell_index unknowns_duplicate = rev (map cell_index unknowns))"
proof (intro conjI ballI impI)
  show "map cell_index (empty_unknowns_list board) = rev (filter (\<lambda>i. board ! i = 0) [0..<81])"
    by (rule empty_unknowns_list_indices)
  show "eligible_values c = [9, 8, 7, 6, 5, 4, 3, 2, 1]" if "c \<in> set (empty_unknowns_list board)" for c
    using that by (auto simp: empty_unknowns_list_eq cell_create_def get_eligible_values_new_9)
  show "subseq (map cell_index unknowns') (map cell_index unknowns)"
    if "solve_elimination_method board unknowns = (ret, board', unknowns')"
    using that by (rule solve_elimination_method_subseq)
  show "subseq (map cell_index unknowns') (map cell_index unknowns)"
    if "list_remove unknowns pos = Some unknowns'"
  proof -
    from that have "unknowns' = take (nat (pos - 1)) unknowns @ drop (nat pos) unknowns"
      and "0 < pos"
      by (auto simp: list_remove_def split: if_splits)
    moreover have "nat pos = Suc (nat (pos - 1))"
      using \<open>0 < pos\<close> by simp
    moreover have "subseq (take n unknowns @ drop (Suc n) unknowns) unknowns" for n
    proof -
      have "subseq (drop (Suc n) unknowns) (drop n unknowns)"
      proof (cases "n < length unknowns")
        case True
        then show ?thesis
          by (auto simp add: Cons_nth_drop_Suc [symmetric])
      qed simp
      then have "subseq (take n unknowns @ drop (Suc n) unknowns) (take n unknowns @ drop n unknowns)"
        by (intro list_emb_append_mono) simp_all
      then show ?thesis
        by simp
    qed
    ultimately have "subseq unknowns' unknowns"
      by simp
    then show ?thesis
      by (rule subseq_map)
  qed
  show "map cell_index unknowns_duplicate = rev (map cell_index unknowns)"
    if "duplicate_unknown_list unknowns = Some unknowns_duplicate"
    using that by (rule duplicate_unknown_list_indices)
qed

section \<open>Example boards\<close>

text \<open>A complete board, in the memory order of the C array (grid by grid).\<close>

definition complete_board :: board where
  "complete_board =
     [1, 2, 3, 4, 5, 6, 7, 8, 9,  4, 5, 6, 7, 8, 9, 1, 2, 3,  7, 8, 9, 1, 2, 3, 4, 5, 6,
      2, 3, 4, 5, 6, 7, 8, 9, 1,  5, 6, 7, 8, 9, 1, 2, 3, 4,  8, 9, 1, 2, 3, 4, 5, 6, 7,
      3, 4, 5, 6, 7, 8, 9, 1, 2,  6, 7, 8, 9, 1, 2, 3, 4, 5,  9, 1, 2, 3, 4, 5, 6, 7, 8]"

text \<open>The complete board with its last two positions unknown.\<close>

definition two_unknowns_board :: board where
  "two_unknowns_board = complete_board[79 := 0, 80 := 0]"

text \<open>A board without repeated digits in any grid, row or column that has no solution:
  the first position is unknown and its row, column and grid hold all nine digits.\<close>

definition unsolvable_board :: board where
  "unsolvable_board = complete_board[0 := 0, 9 := 1, 15 := 0, 53 := 0, 79 := 0, 80 := 0]"

text \<open>Claim C3 as stated fails: with two unknown positions, 79 and 80, the cell at list
  position 1 is the one created last, for position 80.\<close>

theorem unknowns_creation_order_counterexample:
  "map cell_index (empty_unknowns_list two_unknowns_board) = [80, 79] \<and>
   list_inspect (empty_unknowns_list two_unknowns_board) 1 = Some (cell_create 8 2 2 9) \<and>
   list_inspect (empty_unknowns_list two_unknowns_board) 1 \<noteq> Some (cell_create 8 1 2 9)"
  by code_simp

theorem unknowns_reverse_creation_order_witness:
  "map cell_index (empty_unknowns_list two_unknowns_board) = [80, 79] \<and>
   eligible_values (cell_create 8 2 2 9) = [9, 8, 7, 6, 5, 4, 3, 2, 1] \<and>
   solve_elimination_method two_unknowns_board (empty_unknowns_list two_unknowns_board)
     = (1, complete_board, []) \<and>
   subseq [] (map cell_index (empty_unknowns_list two_unknowns_board)) \<and>
   list_remove (empty_unknowns_list two_unknowns_board) 1 = Some [cell_create 8 1 2 9] \<and>
   subseq (map cell_index [cell_create 8 1 2 9])
     (map cell_index (empty_unknowns_list two_unknowns_board)) \<and>
   duplicate_unknown_list (empty_unknowns_list two_unknowns_board)
     = Some [cell_create 8 1 2 9, cell_create 8 2 2 9] \<and>
   map cell_index [cell_create 8 1 2 9, cell_create 8 2 2 9] = [79, 80]"
proof -
  let ?u = "empty_unknowns_list two_unknowns_board"
  let ?d = "[cell_create 8 1 2 9, cell_create 8 2 2 9]"
  have idx: "map cell_index ?u = [80, 79]"
    by code_simp
  have el: "solve_elimination_method two_unknowns_board ?u = (1, complete_board, [])"
    by code_simp
  have rm: "list_remove ?u 1 = Some [cell_create 8 1 2 9]"
    by code_simp
  have du: "duplicate_unknown_list ?u = Some ?d"
    by code_simp
  have mem: "cell_create 8 2 2 9 \<in> set ?u"
    by code_simp
  note inst = unknowns_reverse_creation_order
  have "eligible_values (cell_create 8 2 2 9) = [9, 8, 7, 6, 5, 4, 3, 2, 1]"
    using inst [of two_unknowns_board] mem by blast
  moreover have "subseq [] (map cell_index ?u)"
    using inst [of two_unknowns_board ?u 1 complete_board "[]"] el by simp
  moreover have "subseq (map cell_index [cell_create 8 1 2 9]) (map cell_index ?u)"
    using inst [of _ ?u _ _ "[cell_create 8 1 2 9]" 1] rm by blast
  moreover have "map cell_index ?d = rev (map cell_index ?u)"
    using inst [of _ ?u _ _ _ _ ?d] du by blast
  then have "map cell_index ?d = [79, 80]"
    by (simp add: idx)
  ultimately show ?thesis
    using idx el rm du by blast
qed


section \<open>The caller's board\<close>

lemma backtrack_while_loop_frame:
  "backtrack_while_loop recurse board unknowns cell = Some (ret, board', unknowns') \<Longrightarrow>
   unknowns' = unknowns \<and> (ret \<noteq> 1 \<longrightarrow> board' = board)"
proof (induction "length (eligible_values cell)" arbitrary: cell rule: less_induct)
  case less
  show ?case
    using less.prems less.hyps
    by (subst (asm) backtrack_while_loop.simps)
       (auto simp: Let_def split: if_splits option.splits prod.splits)
qed

lemma solve_backtrack_method_frame:
  "solve_backtrack_method depth board unknowns = Some (ret, board', unknowns') \<Longrightarrow>
   ret \<noteq> 1 \<Longrightarrow> board' = board"
  by (cases depth) (auto split: if_splits option.splits dest: backtrack_while_loop_frame)

text \<open>
  Claim C6. A call of \<open>solve_backtrack_method\<close> that returns 0 or -1 leaves the board
  as it was on entry; the board is written only where 1 is returned. So when the
  backtracking of \<open>solve_sudoku\<close> fails, the board that \<open>solve_sudoku\<close> leaves is the one
  the elimination method at the top level has produced.
\<close>

theorem backtrack_failure_keeps_board:
  "(solve_backtrack_method depth board unknowns = Some (ret, board', unknowns')
      \<and> ret \<noteq> SUCCESS_RET \<longrightarrow> board' = board) \<and>
   (empty_unknowns_list board0 \<noteq> []
      \<and> solve_elimination_method board0 (empty_unknowns_list board0) = (elret, board, unknowns)
      \<and> elret \<noteq> ERROR_RET
      \<and> solve_backtrack_method depth board unknowns = Some (STALEMATE_RET, board', unknowns')
      \<longrightarrow> solve_sudoku depth board0 = Some (Returned board))"
proof (intro conjI impI)
  show "board' = board"
    if "solve_backtrack_method depth board unknowns = Some (ret, board', unknowns')
      \<and> ret \<noteq> SUCCESS_RET"
    using that solve_backtrack_method_frame by blast
  assume a: "empty_unknowns_list board0 \<noteq> []
      \<and> solve_elimination_method board0 (empty_unknowns_list board0) = (elret, board, unknowns)
      \<and> elret \<noteq> ERROR_RET
      \<and> solve_backtrack_method depth board unknowns = Some (STALEMATE_RET, board', unknowns')"
  then have "board' = board"
    using solve_backtrack_method_frame [of depth board unknowns 0 board' unknowns'] by simp
  with a show "solve_sudoku depth board0 = Some (Returned board)"
    by (simp add: solve_sudoku_def list_is_empty_def)
qed

theorem backtrack_failure_keeps_board_witness:
  "solve_backtrack_method 2 (complete_board[0 := 0, 9 := 0])
     [\<lparr>cell_grid_pos = 0, cell_x_pos = 0, cell_y_pos = 0, eligible_values = [4]\<rparr>,
      cell_create 1 0 0 9]
     = Some (0, complete_board[0 := 0, 9 := 0], [cell_create 1 0 0 9]) \<and>
   solve_elimination_method unsolvable_board (empty_unknowns_list unsolvable_board)
     = (0, unsolvable_board[53 := 7, 79 := 7],
        [\<lparr>cell_grid_pos = 8, cell_x_pos = 2, cell_y_pos = 2, eligible_values = [8, 7]\<rparr>,
         \<lparr>cell_grid_pos = 1, cell_x_pos = 0, cell_y_pos = 2, eligible_values = []\<rparr>,
         cell_create 0 0 0 9]) \<and>
   solve_sudoku 1 unsolvable_board = Some (Returned (unsolvable_board[53 := 7, 79 := 7]))"
proof -
  let ?b = "complete_board[0 := 0, 9 := 0]"
  let ?u = "[\<lparr>cell_grid_pos = 0, cell_x_pos = 0, cell_y_pos = 0, eligible_values = [4]\<rparr>,
      cell_create 1 0 0 9]"
  let ?b1 = "unsolvable_board[53 := 7, 79 := 7]"
  let ?u1 = "[\<lparr>cell_grid_pos = 8, cell_x_pos = 2, cell_y_pos = 2, eligible_values = [8, 7]\<rparr>,
         \<lparr>cell_grid_pos = 1, cell_x_pos = 0, cell_y_pos = 2, eligible_values = []\<rparr>,
         cell_create 0 0 0 9]"
  have first: "solve_backtrack_method 2 ?b ?u = Some (0, ?b, [cell_create 1 0 0 9])"
    by code_simp
  have ne: "empty_unknowns_list unsolvable_board \<noteq> []"
    by code_simp
  have el: "solve_elimination_method unsolvable_board (empty_unknowns_list unsolvable_board)
      = (0, ?b1, ?u1)"
    by code_simp
  have bt: "solve_backtrack_method 1 ?b1 ?u1 = Some (0, ?b1, tl ?u1)"
    by code_simp
  note inst = backtrack_failure_keeps_board
  have "solve_sudoku 1 unsolvable_board = Some (Returned ?b1)"
    using inst [of 1 ?b1 ?u1 0 ?b1 "tl ?u1" unsolvable_board 0] ne el bt by simp
  with first el show ?thesis
    using inst [of 2 ?b ?u 0 ?b "[cell_create 1 0 0 9]"] by blast
qed

text \<open>
  Claim C10. On a board without a zero the list of unknown cells is empty and
  \<open>solve_sudoku\<close> returns at once with the board as it was. This holds for every depth
  bound, also for depth 0, at which \<open>solve_backtrack_method\<close> cannot be entered.
\<close>

theorem complete_board_untouched:
  assumes "length board = 81" and "0 \<notin> set board"
  shows "empty_unknowns_list board = [] \<and> solve_sudoku depth board = Some (Returned board)"
proof -
  have "board ! i \<noteq> 0" if "i < 81" for i
    using assms that by (metis nth_mem)
  then have "filter (\<lambda>i. board ! i = 0) [0..<81] = []"
    by (simp add: filter_empty_conv)
  then have "map cell_index (empty_unknowns_list board) = []"
    by (simp add: empty_unknowns_list_indices)
  then have "empty_unknowns_list board = []"
    by simp
  then show ?thesis
    by (simp add: solve_sudoku_def list_is_empty_def)
qed

theorem complete_board_untouched_witness:
  "length complete_board = 81 \<and> empty_unknowns_list complete_board = [] \<and>
   solve_sudoku 0 complete_board = Some (Returned complete_board)"
proof -
  have len: "length complete_board = 81"
    by (simp add: complete_board_def)
  have nz: "0 \<notin> set complete_board"
    by (simp add: complete_board_def)
  show ?thesis
    using complete_board_untouched [OF len nz, of 0] len by simp
qed

section \<open>Termination\<close>

lemma cell_update_first:
  assumes "eligible_values cell = v # vs" and "v \<noteq> - 1"
  shows "cell_update_eligible_values cell v = Some (cell\<lparr>eligible_values := vs\<rparr>)"
  using assms
  by (simp add: cell_update_eligible_values_def cell_eligible_values_length_def list_length_def
      cell_update_loop.simps [of cell v _ 0] cell_inspect_eligible_values_def
      list_inspect_def list_remove_def)

lemma backtrack_while_loop_Nil:
  "eligible_values cell = [] \<Longrightarrow>
   backtrack_while_loop recurse board unknowns cell = Some (0, board, unknowns)"
  by (subst backtrack_while_loop.simps)
     (simp add: cell_eligible_values_length_def list_length_def)

lemma backtrack_while_loop_Cons:
  assumes "eligible_values cell = v # vs" and "v \<noteq> - 1"
  shows "backtrack_while_loop recurse board unknowns cell =
    (case solve_elimination_method
            (board_put (duplicate_board indeterminate_board board)
               (cell_grid_pos cell) (cell_y_pos cell) (cell_x_pos cell) v)
            (rev (map (\<lambda>c. the (cell_duplicate c 9)) unknowns)) of
       (elret, bd, ud) \<Rightarrow>
         if elret = - 1 then Some (- 1, board, unknowns)
         else if elret = 1 then
           (case recurse bd ud of
              None \<Rightarrow> None
            | Some (btret, bd', ud') \<Rightarrow>
                if btret = - 1 then Some (- 1, board, unknowns)
                else if btret = 1 then Some (1, duplicate_board board bd', unknowns)
                else backtrack_while_loop recurse board unknowns (cell\<lparr>eligible_values := vs\<rparr>))
         else backtrack_while_loop recurse board unknowns (cell\<lparr>eligible_values := vs\<rparr>))"
proof -
  have insp: "cell_inspect_eligible_values cell 1 = v"
    using assms(1) by (rule cell_inspect_first)
  have upd: "cell_update_eligible_values cell v = Some (cell\<lparr>eligible_values := vs\<rparr>)"
    using assms by (rule cell_update_first)
  show ?thesis
    by (subst backtrack_while_loop.simps)
       (simp add: insp upd assms(1) cell_eligible_values_length_def list_length_def
          duplicate_unknown_list_eq Let_def split: prod.splits option.splits)
qed

lemma backtrack_while_loop_returns:
  assumes "\<And>b u. length u \<le> length unknowns \<Longrightarrow> \<exists>r. recurse b u = Some r"
    and "- 1 \<notin> set (eligible_values cell)"
  shows "\<exists>r. backtrack_while_loop recurse board unknowns cell = Some r"
  using assms(2)
proof (induction "eligible_values cell" arbitrary: cell)
  case Nil
  then show ?case
    by (simp add: backtrack_while_loop_Nil)
next
  case (Cons v vs)
  then have el: "eligible_values cell = v # vs" and v: "v \<noteq> - 1"
    and vs: "- 1 \<notin> set vs"
    by (metis, metis list.set_intros(1), metis list.set_intros(2))
  let ?cell' = "cell\<lparr>eligible_values := vs\<rparr>"
  obtain r' where nxt: "backtrack_while_loop recurse board unknowns ?cell' = Some r'"
    using Cons.hyps(1) [of ?cell'] vs by auto
  obtain elret bd ud where run: "solve_elimination_method
            (board_put (duplicate_board indeterminate_board board)
               (cell_grid_pos cell) (cell_y_pos cell) (cell_x_pos cell) v)
            (rev (map (\<lambda>c. the (cell_duplicate c 9)) unknowns)) = (elret, bd, ud)"
    by (metis prod_cases3)
  then have "length ud \<le> length unknowns"
    using solve_elimination_method_length by fastforce
  then obtain r where "recurse bd ud = Some r"
    using assms(1) by blast
  then show ?case
    using nxt run
    by (cases r; cases r') (auto simp: backtrack_while_loop_Cons [OF el v])
qed

lemma solve_backtrack_method_returns:
  "length unknowns < depth \<Longrightarrow> \<exists>r. solve_backtrack_method depth board unknowns = Some r"
proof (induction depth arbitrary: board unknowns)
  case 0
  then show ?case by simp
next
  case (Suc depth)
  show ?case
  proof (cases unknowns)
    case Nil
    then show ?thesis
      by (simp add: list_is_empty_def)
  next
    case (Cons temp_cell rest)
    obtain cell where dup: "cell_duplicate temp_cell (int 9) = Some cell"
      using cell_duplicate_total by blast
    then have clean: "- 1 \<notin> set (eligible_values cell)"
      using cell_duplicate_set [OF dup] by auto
    have "\<exists>r. solve_backtrack_method depth b u = Some r" if "length u \<le> length rest" for b u
      using that Suc.prems Cons by (intro Suc.IH) simp
    then have "\<exists>r. backtrack_while_loop (solve_backtrack_method depth) board rest cell = Some r"
      using clean by (rule backtrack_while_loop_returns)
    then show ?thesis
      using Cons dup
      by (auto simp: list_is_empty_def list_inspect_def list_remove_def list_length_def)
  qed
qed

lemma empty_unknowns_list_length: "length (empty_unknowns_list board) \<le> 81"
proof -
  have "length (map cell_index (empty_unknowns_list board)) \<le> length [0..<81]"
    unfolding empty_unknowns_list_indices length_rev by (rule length_filter_le)
  then show ?thesis
    by simp
qed

lemma solve_sudoku_returns: "\<exists>out. solve_sudoku 82 board = Some out"
proof -
  obtain elret b1 u1 where
    el: "solve_elimination_method board (empty_unknowns_list board) = (elret, b1, u1)"
    by (metis prod_cases3)
  then have "length u1 < 82"
    using solve_elimination_method_length [OF el] empty_unknowns_list_length [of board] by simp
  then obtain r where "solve_backtrack_method 82 b1 u1 = Some r"
    using solve_backtrack_method_returns by blast
  then show ?thesis
    using el by (auto simp: solve_sudoku_def Let_def split: prod.splits)
qed


text \<open>
  Claim C8. Both methods terminate. A pass of the elimination method that is followed
  by another pass has made the list shorter, and the list the method leaves is never
  longer than the one it was given. An iteration of the trial loop takes the value at
  position 1 out of the working cell. A recursive call of \<open>solve_backtrack_method\<close> is
  made on a list shorter than the caller's, so a depth bound above the length of the
  list always gives a result; the list of \<open>solve_sudoku\<close> has at most 81 cells, and
  the depth bound 82 always gives a result.
\<close>

theorem solver_terminates:
  "(elimination_for_loop board unknowns (list_length unknowns) 0 False
      = (None, board', unknowns', True) \<longrightarrow> length unknowns' < length unknowns) \<and>
   (\<exists>ret b u. solve_elimination_method board unknowns = (ret, b, u)
      \<and> length u \<le> length unknowns) \<and>
   (set (eligible_values cell) \<subseteq> {1..9} \<and> eligible_values cell \<noteq> [] \<longrightarrow>
      (\<exists>cell'. cell_update_eligible_values cell (cell_inspect_eligible_values cell 1) = Some cell'
         \<and> length (eligible_values cell') < length (eligible_values cell))) \<and>
   (list_remove unknowns 1 = Some rest
      \<and> duplicate_unknown_list rest = Some unknowns_duplicate
      \<and> solve_elimination_method board_duplicate unknowns_duplicate
          = (elret, board_duplicate', unknowns_duplicate')
      \<longrightarrow> length unknowns_duplicate' < length unknowns) \<and>
   (length unknowns < depth \<longrightarrow> (\<exists>r. solve_backtrack_method depth board unknowns = Some r)) \<and>
   length (empty_unknowns_list board) \<le> 81 \<and>
   (\<exists>out. solve_sudoku 82 board = Some out)"
proof (intro conjI impI)
  show "length unknowns' < length unknowns"
    if "elimination_for_loop board unknowns (list_length unknowns) 0 False
      = (None, board', unknowns', True)"
    using that by (rule elimination_for_loop_shrinks)
  show "\<exists>ret b u. solve_elimination_method board unknowns = (ret, b, u)
      \<and> length u \<le> length unknowns"
    by (metis prod_cases3 solve_elimination_method_length)
  show "\<exists>cell'. cell_update_eligible_values cell (cell_inspect_eligible_values cell 1) = Some cell'
         \<and> length (eligible_values cell') < length (eligible_values cell)"
    if a: "set (eligible_values cell) \<subseteq> {1..9} \<and> eligible_values cell \<noteq> []"
  proof -
    from a obtain v vs where el: "eligible_values cell = v # vs"
      by (cases "eligible_values cell") auto
    with a have "v \<noteq> - 1"
      by auto
    then show ?thesis
      using cell_update_first [OF el] cell_inspect_first [OF el] el by simp
  qed
  show "length unknowns_duplicate' < length unknowns"
    if a: "list_remove unknowns 1 = Some rest
      \<and> duplicate_unknown_list rest = Some unknowns_duplicate
      \<and> solve_elimination_method board_duplicate unknowns_duplicate
          = (elret, board_duplicate', unknowns_duplicate')"
  proof -
    have "length unknowns_duplicate' \<le> length unknowns_duplicate"
      using a solve_elimination_method_length by blast
    moreover have "length unknowns_duplicate = length rest"
      using a by (auto simp: duplicate_unknown_list_eq)
    moreover have "length rest < length unknowns"
      using a by (auto simp: list_remove_def list_length_def split: if_splits)
    ultimately show ?thesis
      by simp
  qed
  show "\<exists>r. solve_backtrack_method depth board unknowns = Some r" if "length unknowns < depth"
    using that by (rule solve_backtrack_method_returns)
  show "length (empty_unknowns_list board) \<le> 81"
    by (rule empty_unknowns_list_length)
  show "\<exists>out. solve_sudoku 82 board = Some out"
    by (rule solve_sudoku_returns)
qed

theorem solver_terminates_witness:
  "elimination_for_loop two_unknowns_board (empty_unknowns_list two_unknowns_board)
      (list_length (empty_unknowns_list two_unknowns_board)) 0 False
      = (None, complete_board, [], True) \<and>
   length ([] :: Cell list) < length (empty_unknowns_list two_unknowns_board) \<and>
   cell_update_eligible_values (cell_create 8 1 2 9)
      (cell_inspect_eligible_values (cell_create 8 1 2 9) 1)
      = Some \<lparr>cell_grid_pos = 8, cell_x_pos = 1, cell_y_pos = 2,
              eligible_values = [8, 7, 6, 5, 4, 3, 2, 1]\<rparr> \<and>
   list_remove (empty_unknowns_list two_unknowns_board) 1 = Some [cell_create 8 1 2 9] \<and>
   duplicate_unknown_list [cell_create 8 1 2 9] = Some [cell_create 8 1 2 9] \<and>
   solve_elimination_method (two_unknowns_board[80 := 8]) [cell_create 8 1 2 9]
      = (1, complete_board, []) \<and>
   solve_backtrack_method 4 (unsolvable_board[53 := 7, 79 := 7])
      [\<lparr>cell_grid_pos = 8, cell_x_pos = 2, cell_y_pos = 2, eligible_values = [8, 7]\<rparr>,
       \<lparr>cell_grid_pos = 1, cell_x_pos = 0, cell_y_pos = 2, eligible_values = []\<rparr>,
       cell_create 0 0 0 9]
      = Some (0, unsolvable_board[53 := 7, 79 := 7],
          [\<lparr>cell_grid_pos = 1, cell_x_pos = 0, cell_y_pos = 2, eligible_values = []\<rparr>,
           cell_create 0 0 0 9])"
proof -
  let ?u = "empty_unknowns_list two_unknowns_board"
  let ?c = "cell_create 8 1 2 9"
  let ?u1 = "[\<lparr>cell_grid_pos = 8, cell_x_pos = 2, cell_y_pos = 2, eligible_values = [8, 7]\<rparr>,
       \<lparr>cell_grid_pos = 1, cell_x_pos = 0, cell_y_pos = 2, eligible_values = []\<rparr>,
       cell_create 0 0 0 9]"
  have pass: "elimination_for_loop two_unknowns_board ?u (list_length ?u) 0 False
      = (None, complete_board, [], True)"
    by code_simp
  have digits: "set (eligible_values ?c) \<subseteq> {1..9} \<and> eligible_values ?c \<noteq> []"
    by (simp add: cell_create_def get_eligible_values_new_9)
  have upd: "cell_update_eligible_values ?c (cell_inspect_eligible_values ?c 1)
      = Some \<lparr>cell_grid_pos = 8, cell_x_pos = 1, cell_y_pos = 2,
              eligible_values = [8, 7, 6, 5, 4, 3, 2, 1]\<rparr>"
    by code_simp
  have rm: "list_remove ?u 1 = Some [?c]"
    by code_simp
  have du: "duplicate_unknown_list [?c] = Some [?c]"
    by code_simp
  have el: "solve_elimination_method (two_unknowns_board[80 := 8]) [?c] = (1, complete_board, [])"
    by code_simp
  have len: "length ?u1 < 4"
    by simp
  have bt: "solve_backtrack_method 4 (unsolvable_board[53 := 7, 79 := 7]) ?u1
      = Some (0, unsolvable_board[53 := 7, 79 := 7], tl ?u1)"
    by code_simp
  note inst = solver_terminates
    [of two_unknowns_board ?u complete_board "[]" ?c "[?c]" "[?c]" "two_unknowns_board[80 := 8]"
        1 complete_board "[]" 3]
  have "length ([] :: Cell list) < length ?u"
    using inst pass by blast
  moreover have "\<exists>r. solve_backtrack_method 4 (unsolvable_board[53 := 7, 79 := 7]) ?u1 = Some r"
    using solver_terminates [of "unsolvable_board[53 := 7, 79 := 7]" ?u1 _ _ _ _ _ _ _ _ _ 4] len
    by blast
  ultimately show ?thesis
    using pass upd rm du el bt by simp
qed

section \<open>Board positions that are written\<close>

lemma subseq_set_mono: "subseq xs ys \<Longrightarrow> set xs \<subseteq> set ys"
  by (auto elim: list_emb_set)

lemma board_put_cell_index:
  "board_put board (cell_grid_pos c) (cell_y_pos c) (cell_x_pos c) v = board[cell_index c := v]"
  by (simp add: board_put_def cell_index_def)

lemma fold_update_upt:
  "n \<le> length new \<Longrightarrow>
   fold (\<lambda>i b. b[i := f i]) [0..<n] new = map f [0..<n] @ drop n new"
proof (induction n)
  case 0
  then show ?case by simp
next
  case (Suc n)
  then have "(map f [0..<n] @ drop n new)[n := f n] = map f [0..<n] @ f n # drop (Suc n) new"
    by (simp add: list_update_append Cons_nth_drop_Suc [symmetric])
  with Suc show ?case
    by simp
qed

lemma duplicate_board_fold:
  "duplicate_board new_board original_board
   = fold (\<lambda>i b. b[i := original_board ! i]) [0..<81] new_board"
proof -
  have "fold (\<lambda>i b. b[i := original_board ! i])
          (map (\<lambda>(grid, y, x). board_index grid y x) scan_order) new_board
      = duplicate_board new_board original_board"
    unfolding duplicate_board_def fold_map
    by (rule arg_cong [where f = "\<lambda>f. fold f scan_order new_board"])
       (auto simp: fun_eq_iff board_put_def board_get_def)
  then show ?thesis
    by (simp add: scan_order_indices)
qed

lemma duplicate_board_eq:
  assumes "length new_board = 81" and "length original_board = 81"
  shows "duplicate_board new_board original_board = original_board"
proof -
  have "duplicate_board new_board original_board = map (\<lambda>i. original_board ! i) [0..<81]"
    using assms(1) fold_update_upt [of 81 new_board "\<lambda>i. original_board ! i"]
    by (simp add: duplicate_board_fold)
  also have "\<dots> = original_board"
    using assms(2) map_nth [of original_board] by simp
  finally show ?thesis .
qed

lemma duplicate_indeterminate_board [simp]:
  "length board = 81 \<Longrightarrow> duplicate_board indeterminate_board board = board"
  by (simp add: duplicate_board_eq indeterminate_board_def)

lemma elimination_pass_writes:
  "elimination_pass board seen rest m = (r, b', u', m') \<Longrightarrow>
   length b' = length board \<and> (\<forall>i. i \<notin> cell_index ` set rest \<longrightarrow> b' ! i = board ! i)"
proof (induction rest arbitrary: board seen m)
  case Nil
  then show ?case by auto
next
  case (Cons c rest)
  obtain ok c' where uc: "update_constraints board c (cell_grid_pos c)
        (cell_x_pos c) (cell_y_pos c) = (ok, c')"
    by force
  let ?b = "board[cell_index c := hd (eligible_values c')]"
  have commit: "length b' = length board \<and> (\<forall>i. i \<notin> cell_index ` set (c # rest) \<longrightarrow> b' ! i = board ! i)"
    if "elimination_pass ?b seen rest True = (r, b', u', m')"
    using Cons.IH [OF that] by auto
  show ?case
    using Cons.prems uc commit Cons.IH [of board "seen @ [c']" m]
    by (cases ok) (auto simp: board_put_cell_index split: if_splits)
qed

lemma solve_elimination_method_writes:
  assumes "solve_elimination_method board unknowns = (ret, b', u')"
  shows "length b' = length board \<and> (\<forall>i. i \<notin> cell_index ` set unknowns \<longrightarrow> b' ! i = board ! i)"
proof -
  from assms have "elimination_while_loop board unknowns = (ret, b', u')"
    by (simp add: solve_elimination_method_def)
  then show ?thesis
  proof (induction rule: elimination_while_loop_induct)
    case (again board unknowns b1 u1 ret b' u')
    have "set (map cell_index u1) \<subseteq> set (map cell_index unknowns)"
      using elimination_pass_subseq [OF again(1)] by (intro subseq_set_mono) simp
    then have "i \<notin> cell_index ` set u1" if "i \<notin> cell_index ` set unknowns" for i
      using that by auto
    then show ?case
      using again(3) elimination_pass_writes [OF again(1)] by simp
  qed (auto dest: elimination_pass_writes)
qed

lemma solve_elimination_method_indices:
  assumes "solve_elimination_method board unknowns = (ret, b', u')"
  shows "cell_index ` set u' \<subseteq> cell_index ` set unknowns"
  using subseq_set_mono [OF solve_elimination_method_subseq [OF assms]] by simp

lemma backtrack_while_loop_writes:
  assumes rec: "\<And>b u r b' u'. length b = 81 \<Longrightarrow> recurse b u = Some (r, b', u') \<Longrightarrow>
      length b' = 81 \<and> (\<forall>i. i \<notin> cell_index ` set u \<longrightarrow> b' ! i = b ! i)"
    and len: "length board = 81"
    and clean: "- 1 \<notin> set (eligible_values cell)"
    and run: "backtrack_while_loop recurse board unknowns cell = Some (ret, board', unknowns')"
  shows "length board' = 81 \<and>
    (\<forall>i. i \<noteq> cell_index cell \<and> i \<notin> cell_index ` set unknowns \<longrightarrow> board' ! i = board ! i)"
  using clean run
proof (induction "eligible_values cell" arbitrary: cell)
  case Nil
  then show ?case
    using len by (simp add: backtrack_while_loop_Nil)
next
  case (Cons v vs)
  then have el: "eligible_values cell = v # vs" and v: "v \<noteq> - 1"
    and vs: "- 1 \<notin> set vs"
    by (metis, metis list.set_intros(1), metis list.set_intros(2))
  let ?cell' = "cell\<lparr>eligible_values := vs\<rparr>"
  let ?ud = "rev (map (\<lambda>c. the (cell_duplicate c 9)) unknowns)"
  let ?bd = "board[cell_index cell := v]"
  have nxt: "length board' = 81 \<and>
    (\<forall>i. i \<noteq> cell_index cell \<and> i \<notin> cell_index ` set unknowns \<longrightarrow> board' ! i = board ! i)"
    if "backtrack_while_loop recurse board unknowns ?cell' = Some (ret, board', unknowns')"
    using Cons.hyps(1) [of ?cell'] vs that by (simp add: cell_index_def)
  obtain elret bd ud where
    el_run: "solve_elimination_method ?bd ?ud = (elret, bd, ud)"
    by (metis prod_cases3)
  have ud_idx: "cell_index ` set ?ud = cell_index ` set unknowns"
    by (simp add: image_image cell_index_duplicate)
  have bd: "length bd = 81" "\<And>i. i \<notin> cell_index ` set unknowns \<Longrightarrow> bd ! i = ?bd ! i"
    and ud: "cell_index ` set ud \<subseteq> cell_index ` set unknowns"
    using solve_elimination_method_writes [OF el_run]
      solve_elimination_method_indices [OF el_run] len ud_idx by auto
  have success: "length (duplicate_board board bd') = 81 \<and>
      (\<forall>i. i \<noteq> cell_index cell \<and> i \<notin> cell_index ` set unknowns \<longrightarrow>
         duplicate_board board bd' ! i = board ! i)"
    if "recurse bd ud = Some (r, bd', ud')" for r bd' ud'
  proof -
    have "length bd' = 81" and "\<And>i. i \<notin> cell_index ` set ud \<Longrightarrow> bd' ! i = bd ! i"
      using rec [OF bd(1) that] by auto
    moreover have "i \<notin> cell_index ` set ud" if "i \<notin> cell_index ` set unknowns" for i
      using that ud by auto
    ultimately show ?thesis
      using bd(2) len by (simp add: duplicate_board_eq)
  qed
  show ?case
    using Cons.prems(2) nxt el_run len success
    by (auto simp: backtrack_while_loop_Cons [OF el v] board_put_cell_index
        split: if_splits option.splits)
qed

lemma solve_backtrack_method_writes:
  "length board = 81 \<Longrightarrow> solve_backtrack_method depth board unknowns = Some (ret, board', unknowns') \<Longrightarrow>
   length board' = 81 \<and> (\<forall>i. i \<notin> cell_index ` set unknowns \<longrightarrow> board' ! i = board ! i)"
proof (induction depth arbitrary: board unknowns ret board' unknowns')
  case 0
  then show ?case by simp
next
  case (Suc depth)
  show ?case
  proof (cases unknowns)
    case Nil
    then show ?thesis
      using Suc.prems by (simp add: list_is_empty_def)
  next
    case (Cons temp_cell rest)
    obtain cell where dup: "cell_duplicate temp_cell (int 9) = Some cell"
      using cell_duplicate_total by blast
    then have clean: "- 1 \<notin> set (eligible_values cell)"
      using cell_duplicate_set [OF dup] by auto
    have idx: "cell_index cell = cell_index temp_cell"
      using cell_index_duplicate [of temp_cell] dup by simp
    have "length board' = 81 \<and>
        (\<forall>i. i \<noteq> cell_index cell \<and> i \<notin> cell_index ` set rest \<longrightarrow> board' ! i = board ! i)"
      if "backtrack_while_loop (solve_backtrack_method depth) board rest cell
          = Some (ret, board', unknowns')"
      using Suc.IH Suc.prems(1) clean that by (rule backtrack_while_loop_writes)
    then show ?thesis
      using Suc.prems Cons dup idx
      by (auto simp: list_is_empty_def list_inspect_def list_remove_def list_length_def
          split: if_splits)
  qed
qed

text \<open>A board with four unknown positions on which elimination alone makes no
  progress, and the complete board that the solver reaches from it.\<close>

definition search_board :: board where
  "search_board =
     [8, 7, 0, 9, 5, 4, 3, 2, 0,  9, 5, 2, 6, 3, 1, 8, 7, 4,  3, 0, 4, 8, 7, 2, 9, 0, 5,
      6, 1, 8, 7, 9, 5, 4, 3, 2,  4, 9, 5, 2, 8, 3, 1, 6, 7,  2, 3, 7, 6, 4, 1, 5, 9, 8,
      5, 6, 9, 2, 8, 7, 1, 4, 3,  7, 4, 8, 3, 1, 9, 5, 2, 6,  1, 2, 3, 4, 5, 6, 7, 8, 9]"

definition search_solution :: board where
  "search_solution = search_board[2 := 6, 8 := 1, 19 := 1, 25 := 6]"

lemma empty_unknowns_list_zero:
  "c \<in> set (empty_unknowns_list board) \<Longrightarrow> cell_index c < 81 \<and> board ! cell_index c = 0"
proof -
  assume "c \<in> set (empty_unknowns_list board)"
  then have "cell_index c \<in> set (map cell_index (empty_unknowns_list board))"
    by simp
  then show ?thesis
    unfolding empty_unknowns_list_indices by simp
qed

text \<open>
  Claim C2. \<open>empty_unknowns_list\<close> creates cells only for positions that hold 0. The
  elimination method and the backtracking method change the board only at positions of
  cells of their list. Hence every position that is not 0 on the board given to
  \<open>solve_sudoku\<close> holds the same value on the board that \<open>solve_sudoku\<close> leaves.
\<close>

theorem known_positions_kept:
  "(\<forall>c \<in> set (empty_unknowns_list board). cell_index c < 81 \<and> board ! cell_index c = 0) \<and>
   (solve_elimination_method b unknowns = (elret, b1, unknowns1) \<longrightarrow>
      (\<forall>i. i \<notin> cell_index ` set unknowns \<longrightarrow> b1 ! i = b ! i)) \<and>
   (length b = 81 \<and> solve_backtrack_method depth b unknowns = Some (btret, b2, unknowns2) \<longrightarrow>
      (\<forall>i. i \<notin> cell_index ` set unknowns \<longrightarrow> b2 ! i = b ! i)) \<and>
   (length board = 81 \<and> solve_sudoku depth board = Some (Returned board') \<longrightarrow>
      (\<forall>i < 81. board ! i \<noteq> 0 \<longrightarrow> board' ! i = board ! i))"
proof -
  have created: "\<forall>c \<in> set (empty_unknowns_list board). cell_index c < 81 \<and> board ! cell_index c = 0"
    using empty_unknowns_list_zero by blast
  have elimination: "solve_elimination_method b unknowns = (elret, b1, unknowns1) \<longrightarrow>
      (\<forall>i. i \<notin> cell_index ` set unknowns \<longrightarrow> b1 ! i = b ! i)"
    using solve_elimination_method_writes by blast
  have backtrack: "length b = 81 \<and> solve_backtrack_method depth b unknowns = Some (btret, b2, unknowns2)
      \<longrightarrow> (\<forall>i. i \<notin> cell_index ` set unknowns \<longrightarrow> b2 ! i = b ! i)"
    using solve_backtrack_method_writes by blast
  have "board' ! i = board ! i"
    if run: "length board = 81 \<and> solve_sudoku depth board = Some (Returned board')"
      and i: "i < 81" "board ! i \<noteq> 0" for i
  proof -
    let ?u = "empty_unknowns_list board"
    have out: "i \<notin> cell_index ` set ?u"
      using i empty_unknowns_list_zero by blast
    show "board' ! i = board ! i"
    proof (cases "?u = []")
      case True
      with run show ?thesis
        by (simp add: solve_sudoku_def list_is_empty_def)
    next
      case False
      obtain elret b1 u1 where el: "solve_elimination_method board ?u = (elret, b1, u1)"
        by (metis prod_cases3)
      with run False obtain btret u2 where
        bt: "solve_backtrack_method depth b1 u1 = Some (btret, board', u2)"
        by (auto simp: solve_sudoku_def list_is_empty_def split: if_splits option.splits)
      have b1: "length b1 = 81" "b1 ! i = board ! i"
        using solve_elimination_method_writes [OF el] run out by auto
      have "i \<notin> cell_index ` set u1"
        using solve_elimination_method_indices [OF el] out by blast
      then have "board' ! i = b1 ! i"
        using solve_backtrack_method_writes [OF b1(1) bt] by blast
      with b1 show ?thesis
        by simp
    qed
  qed
  then have whole: "length board = 81 \<and> solve_sudoku depth board = Some (Returned board') \<longrightarrow>
      (\<forall>i < 81. board ! i \<noteq> 0 \<longrightarrow> board' ! i = board ! i)"
    by blast
  show ?thesis
    using created elimination backtrack whole by (intro conjI)
qed

theorem known_positions_kept_witness:
  "length search_board = 81 \<and>
   cell_create 2 1 2 9 \<in> set (empty_unknowns_list search_board) \<and>
   cell_index (cell_create 2 1 2 9) = 25 \<and> search_board ! 25 = 0 \<and>
   solve_elimination_method search_board (empty_unknowns_list search_board)
     = (1, search_board,
        [\<lparr>cell_grid_pos = 2, cell_x_pos = 1, cell_y_pos = 2, eligible_values = [6, 1]\<rparr>,
         \<lparr>cell_grid_pos = 2, cell_x_pos = 1, cell_y_pos = 0, eligible_values = [6, 1]\<rparr>,
         \<lparr>cell_grid_pos = 0, cell_x_pos = 2, cell_y_pos = 2, eligible_values = [6, 1]\<rparr>,
         \<lparr>cell_grid_pos = 0, cell_x_pos = 2, cell_y_pos = 0, eligible_values = [6, 1]\<rparr>]) \<and>
   solve_sudoku 2 search_board = Some (Returned search_solution) \<and>
   search_board ! 0 = 8 \<and> search_solution ! 0 = 8 \<and>
   search_board ! 80 = 9 \<and> search_solution ! 80 = 9"
proof -
  let ?u = "empty_unknowns_list search_board"
  let ?u1 = "[\<lparr>cell_grid_pos = 2, cell_x_pos = 1, cell_y_pos = 2, eligible_values = [6, 1]\<rparr>,
         \<lparr>cell_grid_pos = 2, cell_x_pos = 1, cell_y_pos = 0, eligible_values = [6, 1]\<rparr>,
         \<lparr>cell_grid_pos = 0, cell_x_pos = 2, cell_y_pos = 2, eligible_values = [6, 1]\<rparr>,
         \<lparr>cell_grid_pos = 0, cell_x_pos = 2, cell_y_pos = 0, eligible_values = [6, 1]\<rparr>]"
  have len: "length search_board = 81"
    by (simp add: search_board_def)
  have mem: "cell_create 2 1 2 9 \<in> set ?u"
    by code_simp
  have idx: "cell_index (cell_create 2 1 2 9) = 25"
    by code_simp
  have el: "solve_elimination_method search_board ?u = (1, search_board, ?u1)"
    by code_simp
  have run: "solve_sudoku 2 search_board = Some (Returned search_solution)"
    by code_simp
  have b0: "search_board ! 0 = 8" and b80: "search_board ! 80 = 9"
    by (simp_all add: search_board_def)
  note inst = known_positions_kept [of search_board _ _ _ _ _ 2 _ _ _ search_solution]
  have "search_board ! 25 = 0"
    using inst mem idx by force
  moreover have "search_solution ! 0 = 8" "search_solution ! 80 = 9"
    using inst len run b0 b80 by force+
  ultimately show ?thesis
    using len mem idx el run b0 b80 by blast
qed

section \<open>The order of the trials\<close>

text \<open>
  Claim C4. With no sort-sequence function \<open>list_insert\<close> puts the new value at the
  front, so a cell made by \<open>cell_create\<close> with size 9 holds 9 at position 1 down to 1 at
  position 9, and inspecting position \<open>p\<close> gives \<open>10 - p\<close>. When the first cell of its
  list has values left, \<open>solve_backtrack_method\<close> runs its loop on the
  \<open>cell_duplicate\<close> of that cell and on the rest of the list. The values of a
  \<open>cell_duplicate\<close> are digits in descending order; on any such cell position 1 holds
  the largest remaining value and removing that value leaves the rest in the same
  order. A turn of the loop on such a cell writes the largest remaining value of the
  cell at the cell's position of the copied board and runs the elimination method on
  that board and the copied list; it returns, or goes on with the same cell without
  that value, as the results of the elimination method and of the recursive call
  prescribe. The loop therefore trials the largest remaining digit first, and the
  smaller ones after it in descending order.
\<close>

theorem eligible_values_descending:
  "list_insert None l v = v # l \<and>
   eligible_values (cell_create grid x y 9) = [9, 8, 7, 6, 5, 4, 3, 2, 1] \<and>
   (\<forall>p \<in> {1..9}. cell_inspect_eligible_values (cell_create grid x y 9) p = 10 - p) \<and>
   (cell_duplicate c 9 = Some cell \<longrightarrow>
      sorted_wrt (>) (eligible_values cell) \<and> set (eligible_values cell) \<subseteq> {1..9}) \<and>
   (cell_duplicate c 9 = Some cell \<and> eligible_values c \<noteq> [] \<longrightarrow>
      solve_backtrack_method (Suc depth) board (c # unknowns) =
        backtrack_while_loop (solve_backtrack_method depth) board unknowns cell) \<and>
   (sorted_wrt (>) (eligible_values cell) \<and> set (eligible_values cell) \<subseteq> {1..9}
      \<and> eligible_values cell \<noteq> [] \<longrightarrow>
      cell_inspect_eligible_values cell 1 = Max (set (eligible_values cell)) \<and>
      cell_update_eligible_values cell (cell_inspect_eligible_values cell 1) =
        Some (cell\<lparr>eligible_values := tl (eligible_values cell)\<rparr>) \<and>
      backtrack_while_loop recurse board unknowns cell =
        (case solve_elimination_method
                (board_put (duplicate_board indeterminate_board board)
                   (cell_grid_pos cell) (cell_y_pos cell) (cell_x_pos cell)
                   (Max (set (eligible_values cell))))
                (the (duplicate_unknown_list unknowns)) of
           (elret, board_duplicate, unknowns_duplicate) \<Rightarrow>
             if elret = ERROR_RET then Some (ERROR_RET, board, unknowns)
             else if elret = SUCCESS_RET then
               (case recurse board_duplicate unknowns_duplicate of
                  None \<Rightarrow> None
                | Some (btret, board_duplicate', unknowns_duplicate') \<Rightarrow>
                    if btret = ERROR_RET then Some (ERROR_RET, board, unknowns)
                    else if btret = SUCCESS_RET then
                      Some (SUCCESS_RET, duplicate_board board board_duplicate', unknowns)
                    else backtrack_while_loop recurse board unknowns
                           (cell\<lparr>eligible_values := tl (eligible_values cell)\<rparr>))
             else backtrack_while_loop recurse board unknowns
                    (cell\<lparr>eligible_values := tl (eligible_values cell)\<rparr>)))"
proof -
  have ins: "list_insert None l v = v # l"
    by simp
  have new: "eligible_values (cell_create grid x y 9) = [9, 8, 7, 6, 5, 4, 3, 2, 1]"
    by (simp add: cell_create_def get_eligible_values_new_9)
  have insp: "\<forall>p \<in> {1..9}. cell_inspect_eligible_values (cell_create grid x y 9) p = 10 - p"
  proof
    fix p :: int
    assume "p \<in> {1..9}"
    then have "p = 1 \<or> p = 2 \<or> p = 3 \<or> p = 4 \<or> p = 5 \<or> p = 6 \<or> p = 7 \<or> p = 8 \<or> p = 9"
      by auto
    then show "cell_inspect_eligible_values (cell_create grid x y 9) p = 10 - p"
      by (auto simp: cell_inspect_eligible_values_def list_inspect_def list_length_def new)
  qed
  have dup: "cell_duplicate c 9 = Some cell \<longrightarrow>
      sorted_wrt (>) (eligible_values cell) \<and> set (eligible_values cell) \<subseteq> {1..9}"
    using cell_duplicate_sorted [of c cell] cell_duplicate_set [of c 9 cell] by simp
  have call: "cell_duplicate c 9 = Some cell \<and> eligible_values c \<noteq> [] \<longrightarrow>
      solve_backtrack_method (Suc depth) board (c # unknowns) =
        backtrack_while_loop (solve_backtrack_method depth) board unknowns cell"
    by (simp add: list_is_empty_def list_inspect_def list_remove_def list_length_def
        cell_eligible_values_length_def)
  have turn: "cell_inspect_eligible_values cell 1 = Max (set (eligible_values cell)) \<and>
      cell_update_eligible_values cell (cell_inspect_eligible_values cell 1) =
        Some (cell\<lparr>eligible_values := tl (eligible_values cell)\<rparr>) \<and>
      backtrack_while_loop recurse board unknowns cell =
        (case solve_elimination_method
                (board_put (duplicate_board indeterminate_board board)
                   (cell_grid_pos cell) (cell_y_pos cell) (cell_x_pos cell)
                   (Max (set (eligible_values cell))))
                (the (duplicate_unknown_list unknowns)) of
           (elret, board_duplicate, unknowns_duplicate) \<Rightarrow>
             if elret = ERROR_RET then Some (ERROR_RET, board, unknowns)
             else if elret = SUCCESS_RET then
               (case recurse board_duplicate unknowns_duplicate of
                  None \<Rightarrow> None
                | Some (btret, board_duplicate', unknowns_duplicate') \<Rightarrow>
                    if btret = ERROR_RET then Some (ERROR_RET, board, unknowns)
                    else if btret = SUCCESS_RET then
                      Some (SUCCESS_RET, duplicate_board board board_duplicate', unknowns)
                    else backtrack_while_loop recurse board unknowns
                           (cell\<lparr>eligible_values := tl (eligible_values cell)\<rparr>))
             else backtrack_while_loop recurse board unknowns
                    (cell\<lparr>eligible_values := tl (eligible_values cell)\<rparr>))"
    if a: "sorted_wrt (>) (eligible_values cell) \<and> set (eligible_values cell) \<subseteq> {1..9}
      \<and> eligible_values cell \<noteq> []"
  proof -
    obtain a l where al: "eligible_values cell = a # l"
      using a by (cases "eligible_values cell") auto
    have first: "cell_inspect_eligible_values cell 1 = a"
      using al by (rule cell_inspect_first)
    have largest: "Max (set (eligible_values cell)) = a"
      using a hd_descending_Max [of a l] by (simp add: al)
    have tail: "tl (eligible_values cell) = l"
      by (simp add: al)
    have clean: "- 1 \<notin> set (eligible_values cell)"
      using a by auto
    then have neq: "a \<noteq> - 1"
      using al by auto
    have "cell_update_eligible_values cell a = Some (cell\<lparr>eligible_values := l\<rparr>)"
      using clean by (simp add: cell_update_eligible_values_eq al)
    moreover have "the (duplicate_unknown_list unknowns)
        = rev (map (\<lambda>c. the (cell_duplicate c 9)) unknowns)"
      by (simp add: duplicate_unknown_list_eq)
    ultimately show ?thesis
      unfolding first largest tail
      using backtrack_while_loop_Cons [OF al neq, of recurse board unknowns]
      by simp
  qed
  show ?thesis
    using ins new insp dup call turn by blast
qed

theorem eligible_values_descending_witness:
  "list_insert None [2, 1] (3 :: int) = [3, 2, 1] \<and>
   eligible_values (cell_create 4 1 2 9) = [9, 8, 7, 6, 5, 4, 3, 2, 1] \<and>
   cell_inspect_eligible_values (cell_create 4 1 2 9) 3 = 7 \<and>
   cell_duplicate \<lparr>cell_grid_pos = 2, cell_x_pos = 1, cell_y_pos = 2, eligible_values = [1, 6]\<rparr> 9
     = Some \<lparr>cell_grid_pos = 2, cell_x_pos = 1, cell_y_pos = 2, eligible_values = [6, 1]\<rparr> \<and>
   cell_inspect_eligible_values
     \<lparr>cell_grid_pos = 2, cell_x_pos = 1, cell_y_pos = 2, eligible_values = [6, 1]\<rparr> 1 = 6 \<and>
   cell_update_eligible_values
     \<lparr>cell_grid_pos = 2, cell_x_pos = 1, cell_y_pos = 2, eligible_values = [6, 1]\<rparr> 6
     = Some \<lparr>cell_grid_pos = 2, cell_x_pos = 1, cell_y_pos = 2, eligible_values = [1]\<rparr> \<and>
   solve_elimination_method (search_board[25 := 6])
     (the (duplicate_unknown_list
        [\<lparr>cell_grid_pos = 2, cell_x_pos = 1, cell_y_pos = 0, eligible_values = [6, 1]\<rparr>,
         \<lparr>cell_grid_pos = 0, cell_x_pos = 2, cell_y_pos = 2, eligible_values = [6, 1]\<rparr>,
         \<lparr>cell_grid_pos = 0, cell_x_pos = 2, cell_y_pos = 0, eligible_values = [6, 1]\<rparr>]))
     = (1, search_solution, []) \<and>
   backtrack_while_loop (solve_backtrack_method 1) search_board
     [\<lparr>cell_grid_pos = 2, cell_x_pos = 1, cell_y_pos = 0, eligible_values = [6, 1]\<rparr>,
      \<lparr>cell_grid_pos = 0, cell_x_pos = 2, cell_y_pos = 2, eligible_values = [6, 1]\<rparr>,
      \<lparr>cell_grid_pos = 0, cell_x_pos = 2, cell_y_pos = 0, eligible_values = [6, 1]\<rparr>]
     \<lparr>cell_grid_pos = 2, cell_x_pos = 1, cell_y_pos = 2, eligible_values = [6, 1]\<rparr>
     = Some (1, search_solution,
        [\<lparr>cell_grid_pos = 2, cell_x_pos = 1, cell_y_pos = 0, eligible_values = [6, 1]\<rparr>,
         \<lparr>cell_grid_pos = 0, cell_x_pos = 2, cell_y_pos = 2, eligible_values = [6, 1]\<rparr>,
         \<lparr>cell_grid_pos = 0, cell_x_pos = 2, cell_y_pos = 0, eligible_values = [6, 1]\<rparr>]) \<and>
   solve_backtrack_method 2 search_board
     [\<lparr>cell_grid_pos = 2, cell_x_pos = 1, cell_y_pos = 2, eligible_values = [1, 6]\<rparr>,
      \<lparr>cell_grid_pos = 2, cell_x_pos = 1, cell_y_pos = 0, eligible_values = [6, 1]\<rparr>,
      \<lparr>cell_grid_pos = 0, cell_x_pos = 2, cell_y_pos = 2, eligible_values = [6, 1]\<rparr>,
      \<lparr>cell_grid_pos = 0, cell_x_pos = 2, cell_y_pos = 0, eligible_values = [6, 1]\<rparr>]
     = Some (1, search_solution,
        [\<lparr>cell_grid_pos = 2, cell_x_pos = 1, cell_y_pos = 0, eligible_values = [6, 1]\<rparr>,
         \<lparr>cell_grid_pos = 0, cell_x_pos = 2, cell_y_pos = 2, eligible_values = [6, 1]\<rparr>,
         \<lparr>cell_grid_pos = 0, cell_x_pos = 2, cell_y_pos = 0, eligible_values = [6, 1]\<rparr>]) \<and>
   search_board ! 25 = 0 \<and> search_solution ! 25 = 6"
proof -
  let ?c = "\<lparr>cell_grid_pos = 2, cell_x_pos = 1, cell_y_pos = 2, eligible_values = [1, 6]\<rparr>"
  let ?d = "\<lparr>cell_grid_pos = 2, cell_x_pos = 1, cell_y_pos = 2, eligible_values = [6, 1]\<rparr>"
  let ?u = "[\<lparr>cell_grid_pos = 2, cell_x_pos = 1, cell_y_pos = 0, eligible_values = [6, 1]\<rparr>,
      \<lparr>cell_grid_pos = 0, cell_x_pos = 2, cell_y_pos = 2, eligible_values = [6, 1]\<rparr>,
      \<lparr>cell_grid_pos = 0, cell_x_pos = 2, cell_y_pos = 0, eligible_values = [6, 1]\<rparr>]"
  have dup: "cell_duplicate ?c 9 = Some ?d"
    using cell_duplicate_eq [of ?c 9] by (simp add: get_eligible_values_new_9)
  have three: "(3 :: int) \<in> {1..9}"
    by simp
  have desc: "sorted_wrt (>) (eligible_values ?d) \<and> set (eligible_values ?d) \<subseteq> {1..9}
      \<and> eligible_values ?d \<noteq> []"
    by simp
  have largest: "Max (set (eligible_values ?d)) = 6"
    by simp
  have put: "board_put (duplicate_board indeterminate_board search_board) 2 2 1 6
      = search_board[25 := 6]"
    by code_simp
  have trial: "solve_elimination_method (search_board[25 := 6]) (the (duplicate_unknown_list ?u))
      = (1, search_solution, [])"
    by code_simp
  have deeper: "solve_backtrack_method 1 search_solution [] = Some (1, search_solution, [])"
    by (simp add: list_is_empty_def)
  have copy: "duplicate_board search_board search_solution = search_solution"
    by code_simp
  have b25: "search_board ! 25 = 0" "search_solution ! 25 = 6"
    by (simp_all add: search_board_def search_solution_def)
  have some: "eligible_values ?c \<noteq> []"
    by simp
  note inst = eligible_values_descending [where l = "[2, 1]" and v = 3 and grid = 4 and x = 1
      and y = 2 and c = ?c and cell = ?d and depth = 1 and board = search_board
      and unknowns = ?u and recurse = "solve_backtrack_method 1"]
  note ins = inst [THEN conjunct1]
  note new = inst [THEN conjunct2, THEN conjunct1]
  note insp = inst [THEN conjunct2, THEN conjunct2, THEN conjunct1]
  note call = inst [THEN conjunct2, THEN conjunct2, THEN conjunct2, THEN conjunct2,
      THEN conjunct1]
  note turn = inst [THEN conjunct2, THEN conjunct2, THEN conjunct2, THEN conjunct2,
      THEN conjunct2, THEN mp, OF desc]
  have third: "cell_inspect_eligible_values (cell_create 4 1 2 9) 3 = 7"
    using insp three by force
  have first: "cell_inspect_eligible_values ?d 1 = 6"
    using turn [THEN conjunct1] largest by (rule trans)
  have rest: "cell_update_eligible_values ?d 6 = Some \<lparr>cell_grid_pos = 2,
      cell_x_pos = 1, cell_y_pos = 2, eligible_values = [1]\<rparr>"
    using turn [THEN conjunct2, THEN conjunct1] first by simp
  have loop: "backtrack_while_loop (solve_backtrack_method 1) search_board ?u ?d
      = Some (1, search_solution, ?u)"
    using turn [THEN conjunct2, THEN conjunct2] put trial deeper copy by simp
  have "solve_backtrack_method (Suc 1) search_board (?c # ?u)
      = backtrack_while_loop (solve_backtrack_method 1) search_board ?u ?d"
    using call dup some by blast
  then have "solve_backtrack_method (Suc 1) search_board (?c # ?u)
      = Some (1, search_solution, ?u)"
    using loop by (rule trans)
  then have whole: "solve_backtrack_method 2 search_board (?c # ?u)
      = Some (1, search_solution, ?u)"
    by (simp only: Suc_1)
  show ?thesis
    using ins new third dup first rest trial loop whole b25 by blast
qed

section \<open>What the elimination method returns\<close>

text \<open>The digits that \<open>update_constraints\<close> finds in the grid, the row and the column
  of a cell.\<close>

definition scope_values :: "board \<Rightarrow> Cell \<Rightarrow> int list" where
  "scope_values board c =
     filter (\<lambda>v. v \<noteq> 0)
       (map (\<lambda>p. board ! p) (scope_indices (cell_grid_pos c) (cell_x_pos c) (cell_y_pos c)))"

definition narrowed :: "board \<Rightarrow> Cell \<Rightarrow> Cell" where
  "narrowed board c =
     c\<lparr>eligible_values := fold remove1 (scope_values board c) (eligible_values c)\<rparr>"

lemma update_walk_clean:
  "- 1 \<notin> set (eligible_values c) \<Longrightarrow>
   update_walk board c ps =
   (True, c\<lparr>eligible_values :=
              fold remove1 (filter (\<lambda>v. v \<noteq> 0) (map (\<lambda>p. board ! p) ps)) (eligible_values c)\<rparr>)"
proof (induction ps arbitrary: c)
  case Nil
  then show ?case by simp
next
  case (Cons p ps)
  have "- 1 \<notin> set (remove1 (board ! p) (eligible_values c))"
    using Cons.prems by (auto dest: notin_set_remove1)
  then show ?case
    using Cons.prems Cons.IH [of c]
      Cons.IH [of "c\<lparr>eligible_values := remove1 (board ! p) (eligible_values c)\<rparr>"]
    by (simp add: cell_update_eligible_values_eq)
qed

lemma update_constraints_clean:
  "- 1 \<notin> set (eligible_values c) \<Longrightarrow>
   update_constraints board c (cell_grid_pos c) (cell_x_pos c) (cell_y_pos c)
   = (True, narrowed board c)"
  by (simp add: update_constraints_walk update_walk_clean narrowed_def scope_values_def)

lemma set_fold_remove1: "set (fold remove1 xs ys) \<subseteq> set ys"
proof (induction xs arbitrary: ys)
  case (Cons a xs)
  then show ?case
    using set_remove1_subset [of a ys] by fastforce
qed simp

lemma distinct_fold_remove1: "distinct ys \<Longrightarrow> distinct (fold remove1 xs ys)"
  by (induction xs arbitrary: ys) auto

lemma narrowed_subset: "set (eligible_values (narrowed board c)) \<subseteq> set (eligible_values c)"
  by (simp add: narrowed_def set_fold_remove1)

lemma elimination_pass_return:
  "elimination_pass board seen rest m = (Some r, b', u', m') \<Longrightarrow>
   (r = 0 \<and> (\<exists>c \<in> set u'. eligible_values c = [])) \<or>
   (r = - 1 \<and> (\<exists>c \<in> set rest. - 1 \<in> set (eligible_values c)))"
proof (induction rest arbitrary: board seen m)
  case Nil
  then show ?case by simp
next
  case (Cons c rest)
  obtain ok c' where uc: "update_constraints board c (cell_grid_pos c)
        (cell_x_pos c) (cell_y_pos c) = (ok, c')"
    by force
  have ok: "ok" if "- 1 \<notin> set (eligible_values c)"
    using uc update_constraints_clean [OF that, of board] by simp
  show ?case
    using Cons.prems uc ok
      Cons.IH [of "board_put board (cell_grid_pos c) (cell_y_pos c) (cell_x_pos c)
                    (hd (eligible_values c'))" seen True]
      Cons.IH [of board "seen @ [c']" m]
    by (cases ok) (auto split: if_splits)
qed

lemma elimination_pass_kept:
  "elimination_pass board seen rest m = (None, b', u', m') \<Longrightarrow>
   \<forall>c \<in> set seen. 2 \<le> length (eligible_values c) \<Longrightarrow>
   \<forall>c \<in> set u'. 2 \<le> length (eligible_values c)"
proof (induction rest arbitrary: board seen m)
  case Nil
  then show ?case by simp
next
  case (Cons c rest)
  obtain ok c' where uc: "update_constraints board c (cell_grid_pos c)
        (cell_x_pos c) (cell_y_pos c) = (ok, c')"
    by force
  let ?b = "board_put board (cell_grid_pos c) (cell_y_pos c) (cell_x_pos c)
      (hd (eligible_values c'))"
  from Cons.prems(1) uc have ok and ne: "eligible_values c \<noteq> []" "eligible_values c' \<noteq> []"
    by (cases ok; auto split: if_splits)+
  show ?case
  proof (cases "length (eligible_values c') = 1")
    case True
    then have "elimination_pass ?b seen rest True = (None, b', u', m')"
      using Cons.prems(1) uc \<open>ok\<close> ne by simp
    then show ?thesis
      using Cons.prems(2) by (rule Cons.IH)
  next
    case False
    then have "2 \<le> length (eligible_values c')"
      using ne(2) by (cases "eligible_values c'"; cases "tl (eligible_values c')") auto
    moreover have "elimination_pass board (seen @ [c']) rest m = (None, b', u', m')"
      using Cons.prems(1) uc \<open>ok\<close> ne False by simp
    ultimately show ?thesis
      using Cons.prems(2) by (intro Cons.IH [of board "seen @ [c']" m]) auto
  qed
qed

lemma elimination_pass_clean:
  "elimination_pass board seen rest m = (r, b', u', m') \<Longrightarrow>
   \<forall>c \<in> set (seen @ rest). - 1 \<notin> set (eligible_values c) \<Longrightarrow>
   \<forall>c \<in> set u'. - 1 \<notin> set (eligible_values c)"
proof (induction rest arbitrary: board seen m)
  case Nil
  then show ?case by simp
next
  case (Cons c rest)
  have clean: "- 1 \<notin> set (eligible_values c)"
    using Cons.prems(2) by simp
  have uc: "update_constraints board c (cell_grid_pos c) (cell_x_pos c) (cell_y_pos c)
      = (True, narrowed board c)"
    using clean by (rule update_constraints_clean)
  have clean': "- 1 \<notin> set (eligible_values (narrowed board c))"
    using clean narrowed_subset [of board c] by blast
  show ?case
    using Cons.prems uc clean'
      Cons.IH [of "board_put board (cell_grid_pos c) (cell_y_pos c) (cell_x_pos c)
                    (hd (eligible_values (narrowed board c)))" seen True]
      Cons.IH [of board "seen @ [narrowed board c]" m]
    by (auto split: if_splits)
qed


lemma elimination_while_loop_return:
  assumes "elimination_while_loop board unknowns = (ret, b', u')"
  shows "(ret = 0 \<and> (\<exists>c \<in> set u'. eligible_values c = [])) \<or>
         (ret = 1 \<and> (\<forall>c \<in> set u'. 2 \<le> length (eligible_values c))) \<or>
         (ret = - 1 \<and> (\<exists>c \<in> set unknowns. - 1 \<in> set (eligible_values c)))"
  using assms
proof (induction rule: elimination_while_loop_induct)
  case (return board unknowns r b' u' m)
  then show ?case
    using elimination_pass_return [of board "[]" unknowns False r b' u' m] by auto
next
  case (fixpoint board unknowns b' u')
  then show ?case
    using elimination_pass_kept [of board "[]" unknowns False b' u' False] by simp
next
  case (again board unknowns b1 u1 ret b' u')
  have "\<forall>c \<in> set unknowns. - 1 \<notin> set (eligible_values c) \<Longrightarrow>
      \<forall>c \<in> set u1. - 1 \<notin> set (eligible_values c)"
    using elimination_pass_clean [OF again(1)] by simp
  with again(3) show ?case
    by blast
qed

text \<open>
  Claim C5. \<open>solve_elimination_method\<close> returns -1, 0 or 1. When it does not return
  -1, it returns 0 exactly when it leaves a cell without eligible values in the list
  (the cell at which it stopped), and 1 otherwise, whether the list has become empty or
  cells remain; after a return of 1 every cell left has at least two eligible values.
  It does not return -1 on a list whose cells do not hold the value -1.
\<close>

theorem elimination_return_value:
  assumes "solve_elimination_method board unknowns = (ret, board', unknowns')"
  shows "(ret = ERROR_RET \<or> ret = STALEMATE_RET \<or> ret = SUCCESS_RET) \<and>
         (ret \<noteq> ERROR_RET \<longrightarrow>
            (ret = STALEMATE_RET \<longleftrightarrow> (\<exists>c \<in> set unknowns'. eligible_values c = [])) \<and>
            (ret = SUCCESS_RET \<longleftrightarrow> (\<forall>c \<in> set unknowns'. eligible_values c \<noteq> []))) \<and>
         (ret = SUCCESS_RET \<longrightarrow> (\<forall>c \<in> set unknowns'. 2 \<le> length (eligible_values c))) \<and>
         ((\<forall>c \<in> set unknowns. - 1 \<notin> set (eligible_values c)) \<longrightarrow> ret \<noteq> ERROR_RET)"
proof -
  from assms have run: "elimination_while_loop board unknowns = (ret, board', unknowns')"
    by (simp add: solve_elimination_method_def)
  have two: "eligible_values c \<noteq> []" if "2 \<le> length (eligible_values c)" for c
    using that by auto
  show ?thesis
    using elimination_while_loop_return [OF run] two by (elim disjE conjE) auto
qed

theorem elimination_return_value_witness:
  "solve_elimination_method two_unknowns_board (empty_unknowns_list two_unknowns_board)
     = (1, complete_board, []) \<and>
   solve_elimination_method search_board (empty_unknowns_list search_board)
     = (1, search_board,
        [\<lparr>cell_grid_pos = 2, cell_x_pos = 1, cell_y_pos = 2, eligible_values = [6, 1]\<rparr>,
         \<lparr>cell_grid_pos = 2, cell_x_pos = 1, cell_y_pos = 0, eligible_values = [6, 1]\<rparr>,
         \<lparr>cell_grid_pos = 0, cell_x_pos = 2, cell_y_pos = 2, eligible_values = [6, 1]\<rparr>,
         \<lparr>cell_grid_pos = 0, cell_x_pos = 2, cell_y_pos = 0, eligible_values = [6, 1]\<rparr>]) \<and>
   solve_elimination_method unsolvable_board (empty_unknowns_list unsolvable_board)
     = (0, unsolvable_board[53 := 7, 79 := 7],
        [\<lparr>cell_grid_pos = 8, cell_x_pos = 2, cell_y_pos = 2, eligible_values = [8, 7]\<rparr>,
         \<lparr>cell_grid_pos = 1, cell_x_pos = 0, cell_y_pos = 2, eligible_values = []\<rparr>,
         cell_create 0 0 0 9]) \<and>
   solve_elimination_method complete_board
     [\<lparr>cell_grid_pos = 0, cell_x_pos = 0, cell_y_pos = 0, eligible_values = [- 1, 5]\<rparr>]
     = (- 1, complete_board,
        [\<lparr>cell_grid_pos = 0, cell_x_pos = 0, cell_y_pos = 0, eligible_values = [- 1, 5]\<rparr>]) \<and>
   (\<exists>c \<in> set [\<lparr>cell_grid_pos = 8, cell_x_pos = 2, cell_y_pos = 2, eligible_values = [8, 7]\<rparr>,
         \<lparr>cell_grid_pos = 1, cell_x_pos = 0, cell_y_pos = 2, eligible_values = []\<rparr>,
         cell_create 0 0 0 9]. eligible_values c = [])"
proof -
  let ?u1 = "[\<lparr>cell_grid_pos = 8, cell_x_pos = 2, cell_y_pos = 2, eligible_values = [8, 7]\<rparr>,
         \<lparr>cell_grid_pos = 1, cell_x_pos = 0, cell_y_pos = 2, eligible_values = []\<rparr>,
         cell_create 0 0 0 9]"
  have solved: "solve_elimination_method two_unknowns_board (empty_unknowns_list two_unknowns_board)
     = (1, complete_board, [])"
    by code_simp
  have stalemate: "solve_elimination_method search_board (empty_unknowns_list search_board)
     = (1, search_board,
        [\<lparr>cell_grid_pos = 2, cell_x_pos = 1, cell_y_pos = 2, eligible_values = [6, 1]\<rparr>,
         \<lparr>cell_grid_pos = 2, cell_x_pos = 1, cell_y_pos = 0, eligible_values = [6, 1]\<rparr>,
         \<lparr>cell_grid_pos = 0, cell_x_pos = 2, cell_y_pos = 2, eligible_values = [6, 1]\<rparr>,
         \<lparr>cell_grid_pos = 0, cell_x_pos = 2, cell_y_pos = 0, eligible_values = [6, 1]\<rparr>])"
    by code_simp
  have unsolvable: "solve_elimination_method unsolvable_board (empty_unknowns_list unsolvable_board)
     = (0, unsolvable_board[53 := 7, 79 := 7], ?u1)"
    by code_simp
  have error: "solve_elimination_method complete_board
     [\<lparr>cell_grid_pos = 0, cell_x_pos = 0, cell_y_pos = 0, eligible_values = [- 1, 5]\<rparr>]
     = (- 1, complete_board,
        [\<lparr>cell_grid_pos = 0, cell_x_pos = 0, cell_y_pos = 0, eligible_values = [- 1, 5]\<rparr>])"
    by code_simp
  have "\<exists>c \<in> set ?u1. eligible_values c = []"
    using elimination_return_value [OF unsolvable] by simp
  with solved stalemate unsolvable error show ?thesis
    by blast
qed

section \<open>Running the elimination method twice\<close>

definition clean_cell :: "Cell \<Rightarrow> bool" where
  "clean_cell c \<longleftrightarrow> distinct (eligible_values c) \<and> - 1 \<notin> set (eligible_values c)"

lemma narrowed_filter:
  "distinct (eligible_values c) \<Longrightarrow>
   eligible_values (narrowed board c)
   = filter (\<lambda>v. v \<notin> set (scope_values board c)) (eligible_values c)"
  by (simp add: narrowed_def fold_remove1_filter)

lemma narrowed_pos [simp]:
  "cell_grid_pos (narrowed board c) = cell_grid_pos c"
  "cell_x_pos (narrowed board c) = cell_x_pos c"
  "cell_y_pos (narrowed board c) = cell_y_pos c"
  by (simp_all add: narrowed_def)

lemma scope_values_narrowed [simp]:
  "scope_values board (narrowed board' c) = scope_values board c"
  by (simp add: scope_values_def)

lemma clean_cell_narrowed: "clean_cell c \<Longrightarrow> clean_cell (narrowed board c)"
  using narrowed_subset [of board c]
  by (auto simp: clean_cell_def narrowed_def distinct_fold_remove1)

lemma narrowed_idem: "clean_cell c \<Longrightarrow> narrowed board (narrowed board c) = narrowed board c"
proof -
  assume c: "clean_cell c"
  then have "eligible_values (narrowed board (narrowed board c))
      = eligible_values (narrowed board c)"
    using clean_cell_narrowed [OF c, of board]
    by (simp add: narrowed_filter clean_cell_def)
  then show ?thesis
    by (simp add: narrowed_def)
qed

lemma elimination_pass_flag:
  "elimination_pass board seen rest True = (r, b', u', m') \<Longrightarrow> m'"
proof (induction rest arbitrary: board seen)
  case Nil
  then show ?case by simp
next
  case (Cons c rest)
  obtain ok c' where uc: "update_constraints board c (cell_grid_pos c)
        (cell_x_pos c) (cell_y_pos c) = (ok, c')"
    by force
  show ?case
    using Cons.prems uc
      Cons.IH [of "board_put board (cell_grid_pos c) (cell_y_pos c) (cell_x_pos c)
                    (hd (eligible_values c'))" seen]
      Cons.IH [of board "seen @ [c']"]
    by (cases ok) (auto split: if_splits)
qed

declare elimination_pass.simps(2) [simp del]

lemma elimination_pass_Cons:
  assumes "clean_cell c"
  shows "elimination_pass board seen (c # rest) m =
    (if eligible_values c = [] then (Some 0, board, seen @ c # rest, m)
     else if eligible_values (narrowed board c) = []
       then (Some 0, board, seen @ narrowed board c # rest, m)
     else if length (eligible_values (narrowed board c)) = 1
       then elimination_pass (board[cell_index c := hd (eligible_values (narrowed board c))])
              seen rest True
     else elimination_pass board (seen @ [narrowed board c]) rest m)"
  using assms
  by (simp add: elimination_pass.simps(2) update_constraints_clean clean_cell_def
      board_put_cell_index)

lemma elimination_pass_unmodified:
  "elimination_pass board seen rest False = (None, b', u', False) \<Longrightarrow>
   \<forall>c \<in> set rest. clean_cell c \<Longrightarrow>
   b' = board \<and> u' = seen @ map (narrowed board) rest \<and>
   (\<forall>c \<in> set rest. 2 \<le> length (eligible_values (narrowed board c)))"
proof (induction rest arbitrary: seen)
  case Nil
  then show ?case by simp
next
  case (Cons c rest)
  then have c: "clean_cell c"
    by simp
  let ?c' = "narrowed board c"
  from Cons.prems(1) have ne: "eligible_values c \<noteq> []" "eligible_values ?c' \<noteq> []"
    by (auto simp: elimination_pass_Cons [OF c] split: if_splits)
  have "length (eligible_values ?c') \<noteq> 1"
  proof
    assume "length (eligible_values ?c') = 1"
    then have "elimination_pass (board[cell_index c := hd (eligible_values ?c')]) seen rest True
        = (None, b', u', False)"
      using Cons.prems(1) ne by (simp add: elimination_pass_Cons [OF c])
    then show False
      by (auto dest: elimination_pass_flag)
  qed
  then have two: "2 \<le> length (eligible_values ?c')"
    and nxt: "elimination_pass board (seen @ [?c']) rest False = (None, b', u', False)"
    using Cons.prems(1) ne
    by (cases "eligible_values ?c'"; cases "tl (eligible_values ?c')";
        simp add: elimination_pass_Cons [OF c])+
  show ?case
    using Cons.IH [OF nxt] Cons.prems(2) two by simp
qed

lemma elimination_pass_again:
  "\<forall>c \<in> set rest. clean_cell c \<and> 2 \<le> length (eligible_values (narrowed board c)) \<Longrightarrow>
   elimination_pass board seen (map (narrowed board) rest) False
   = (None, board, seen @ map (narrowed board) rest, False)"
proof (induction rest arbitrary: seen)
  case Nil
  then show ?case by simp
next
  case (Cons c rest)
  then have c: "clean_cell c" and two: "2 \<le> length (eligible_values (narrowed board c))"
    by simp_all
  have "elimination_pass board seen (narrowed board c # map (narrowed board) rest) False
      = elimination_pass board (seen @ [narrowed board c]) (map (narrowed board) rest) False"
    using two narrowed_subset [of board c]
    by (subst elimination_pass_Cons [OF clean_cell_narrowed [OF c]])
       (auto simp: narrowed_idem [OF c])
  then show ?case
    using Cons.IH [of "seen @ [narrowed board c]"] Cons.prems by simp
qed

lemma elimination_while_loop_fixpoint:
  assumes "elimination_pass board [] unknowns False = (None, b', u', False)"
  shows "elimination_while_loop board unknowns = (1, b', u')"
  using assms
  by (subst elimination_while_loop.simps) (simp add: elimination_for_loop_pass)

lemma elimination_pass_clean_cell:
  "elimination_pass board seen rest m = (r, b', u', m') \<Longrightarrow>
   \<forall>c \<in> set (seen @ rest). clean_cell c \<Longrightarrow> \<forall>c \<in> set u'. clean_cell c"
proof (induction rest arbitrary: board seen m)
  case Nil
  then show ?case by simp
next
  case (Cons c rest)
  then have c: "clean_cell c"
    by simp
  show ?case
    using Cons.prems clean_cell_narrowed [OF c, of board]
      Cons.IH [of "board[cell_index c := hd (eligible_values (narrowed board c))]" seen True]
      Cons.IH [of board "seen @ [narrowed board c]" m]
    by (auto simp: elimination_pass_Cons [OF c] split: if_splits)
qed

lemma elimination_while_loop_last_pass:
  assumes "elimination_while_loop board unknowns = (ret, b', u')"
  shows "ret = 1 \<Longrightarrow> \<forall>c \<in> set unknowns. clean_cell c \<Longrightarrow>
    \<exists>u0. (\<forall>c \<in> set u0. clean_cell c) \<and> elimination_pass b' [] u0 False = (None, b', u', False)"
  using assms
proof (induction rule: elimination_while_loop_induct)
  case (return board unknowns r b' u' m)
  then show ?case
    using elimination_pass_return [of board "[]" unknowns False r b' u' m]
    by (auto simp: clean_cell_def)
next
  case (fixpoint board unknowns b' u')
  then show ?case
    using elimination_pass_unmodified [of board "[]" unknowns b' u'] by auto
next
  case (again board unknowns b1 u1 ret b' u')
  then show ?case
    using elimination_pass_clean_cell [OF again(1)] by auto
qed


text \<open>Claim C7 as stated fails. On \<open>unsolvable_board\<close> the first run commits 7 at
  positions 79 and 53 and then stops with 0 at the cell of position 15, which has no
  eligible value left. The cell of position 80 was narrowed to 8 and 7 before those
  commits; the second run narrows it to 8 and writes it to the board.\<close>

theorem elimination_twice_counterexample:
  "solve_elimination_method unsolvable_board (empty_unknowns_list unsolvable_board)
     = (0, unsolvable_board[53 := 7, 79 := 7],
        [\<lparr>cell_grid_pos = 8, cell_x_pos = 2, cell_y_pos = 2, eligible_values = [8, 7]\<rparr>,
         \<lparr>cell_grid_pos = 1, cell_x_pos = 0, cell_y_pos = 2, eligible_values = []\<rparr>,
         cell_create 0 0 0 9]) \<and>
   solve_elimination_method (unsolvable_board[53 := 7, 79 := 7])
        [\<lparr>cell_grid_pos = 8, cell_x_pos = 2, cell_y_pos = 2, eligible_values = [8, 7]\<rparr>,
         \<lparr>cell_grid_pos = 1, cell_x_pos = 0, cell_y_pos = 2, eligible_values = []\<rparr>,
         cell_create 0 0 0 9]
     = (0, unsolvable_board[53 := 7, 79 := 7, 80 := 8],
        [\<lparr>cell_grid_pos = 1, cell_x_pos = 0, cell_y_pos = 2, eligible_values = []\<rparr>,
         cell_create 0 0 0 9]) \<and>
   unsolvable_board[53 := 7, 79 := 7, 80 := 8] \<noteq> unsolvable_board[53 := 7, 79 := 7]"
  by code_simp

text \<open>
  Claim C7, as amended. When the cells of the list hold eligible values without
  repetition and without the value -1, as all cells that the program makes do, and a
  run of the elimination method returns 1 (the list is empty or a pass has changed
  nothing), then a second run on the board and the list that the first run has left
  returns 1 again and leaves both unchanged.
\<close>

theorem elimination_idempotent_at_fixpoint:
  assumes "\<forall>c \<in> set unknowns. distinct (eligible_values c) \<and> - 1 \<notin> set (eligible_values c)"
    and "solve_elimination_method board unknowns = (SUCCESS_RET, board', unknowns')"
  shows "solve_elimination_method board' unknowns' = (SUCCESS_RET, board', unknowns')"
proof -
  have clean: "\<forall>c \<in> set unknowns. clean_cell c"
    using assms(1) by (simp add: clean_cell_def)
  have "elimination_while_loop board unknowns = (1, board', unknowns')"
    using assms(2) by (simp add: solve_elimination_method_def)
  then obtain u0 where u0: "\<forall>c \<in> set u0. clean_cell c"
    and last: "elimination_pass board' [] u0 False = (None, board', unknowns', False)"
    using elimination_while_loop_last_pass clean by blast
  have narrowed: "unknowns' = map (narrowed board') u0"
    and two: "\<forall>c \<in> set u0. 2 \<le> length (eligible_values (narrowed board' c))"
    using elimination_pass_unmodified [OF last u0] by simp_all
  have "elimination_pass board' [] (map (narrowed board') u0) False
      = (None, board', [] @ map (narrowed board') u0, False)"
    using u0 two by (intro elimination_pass_again) simp
  then have "elimination_while_loop board' unknowns' = (1, board', unknowns')"
    using narrowed by (intro elimination_while_loop_fixpoint) simp
  then show ?thesis
    by (simp add: solve_elimination_method_def)
qed

theorem elimination_idempotent_at_fixpoint_witness:
  "solve_elimination_method search_board (empty_unknowns_list search_board)
     = (1, search_board,
        [\<lparr>cell_grid_pos = 2, cell_x_pos = 1, cell_y_pos = 2, eligible_values = [6, 1]\<rparr>,
         \<lparr>cell_grid_pos = 2, cell_x_pos = 1, cell_y_pos = 0, eligible_values = [6, 1]\<rparr>,
         \<lparr>cell_grid_pos = 0, cell_x_pos = 2, cell_y_pos = 2, eligible_values = [6, 1]\<rparr>,
         \<lparr>cell_grid_pos = 0, cell_x_pos = 2, cell_y_pos = 0, eligible_values = [6, 1]\<rparr>]) \<and>
   solve_elimination_method search_board
        [\<lparr>cell_grid_pos = 2, cell_x_pos = 1, cell_y_pos = 2, eligible_values = [6, 1]\<rparr>,
         \<lparr>cell_grid_pos = 2, cell_x_pos = 1, cell_y_pos = 0, eligible_values = [6, 1]\<rparr>,
         \<lparr>cell_grid_pos = 0, cell_x_pos = 2, cell_y_pos = 2, eligible_values = [6, 1]\<rparr>,
         \<lparr>cell_grid_pos = 0, cell_x_pos = 2, cell_y_pos = 0, eligible_values = [6, 1]\<rparr>]
     = (1, search_board,
        [\<lparr>cell_grid_pos = 2, cell_x_pos = 1, cell_y_pos = 2, eligible_values = [6, 1]\<rparr>,
         \<lparr>cell_grid_pos = 2, cell_x_pos = 1, cell_y_pos = 0, eligible_values = [6, 1]\<rparr>,
         \<lparr>cell_grid_pos = 0, cell_x_pos = 2, cell_y_pos = 2, eligible_values = [6, 1]\<rparr>,
         \<lparr>cell_grid_pos = 0, cell_x_pos = 2, cell_y_pos = 0, eligible_values = [6, 1]\<rparr>])"
proof -
  have cells: "\<forall>c \<in> set (empty_unknowns_list search_board).
      distinct (eligible_values c) \<and> - 1 \<notin> set (eligible_values c)"
    by (auto simp: empty_unknowns_list_eq cell_create_def get_eligible_values_new_9)
  have first: "solve_elimination_method search_board (empty_unknowns_list search_board)
     = (1, search_board,
        [\<lparr>cell_grid_pos = 2, cell_x_pos = 1, cell_y_pos = 2, eligible_values = [6, 1]\<rparr>,
         \<lparr>cell_grid_pos = 2, cell_x_pos = 1, cell_y_pos = 0, eligible_values = [6, 1]\<rparr>,
         \<lparr>cell_grid_pos = 0, cell_x_pos = 2, cell_y_pos = 2, eligible_values = [6, 1]\<rparr>,
         \<lparr>cell_grid_pos = 0, cell_x_pos = 2, cell_y_pos = 0, eligible_values = [6, 1]\<rparr>])"
    by code_simp
  show ?thesis
    using elimination_idempotent_at_fixpoint [OF cells first] first by simp
qed

section \<open>Solved boards\<close>

text \<open>
  A position of the board is \<open>(grid, y, x)\<close>. The scopes are the nine grids, rows and
  columns, each as the list of its positions in the order in which \<open>check_each_grid\<close>,
  \<open>check_each_row\<close> and \<open>check_each_column\<close> of the board validation read them.
\<close>

type_synonym position = "nat \<times> nat \<times> nat"

definition box_scope :: "nat \<Rightarrow> position list" where
  "box_scope grid = [(grid, y, x). y \<leftarrow> [0..<3], x \<leftarrow> [0..<3]]"

definition row_scope :: "nat \<Rightarrow> position list" where
  "row_scope row = [(3 * (row div 3) + j, row mod 3, x). j \<leftarrow> [0..<3], x \<leftarrow> [0..<3]]"

definition col_scope :: "nat \<Rightarrow> position list" where
  "col_scope col = [(col div 3 + 3 * j, y, col mod 3). j \<leftarrow> [0..<3], y \<leftarrow> [0..<3]]"

definition all_scopes :: "position list list" where
  "all_scopes = map box_scope [0..<9] @ map row_scope [0..<9] @ map col_scope [0..<9]"

definition scope_digits :: "board \<Rightarrow> position list \<Rightarrow> int list" where
  "scope_digits board s = map (\<lambda>(grid, y, x). board_get board grid y x) s"

text \<open>The precondition of the solver: 81 digits from 0 to 9, and no digit other than 0
  twice in a scope.\<close>

definition scope_unique :: "board \<Rightarrow> bool" where
  "scope_unique board \<longleftrightarrow>
     length board = 81 \<and> (\<forall>v \<in> set board. 0 \<le> v \<and> v \<le> 9) \<and>
     (\<forall>s \<in> set all_scopes. distinct (filter (\<lambda>v. v \<noteq> 0) (scope_digits board s)))"

text \<open>A solved board: 81 digits from 1 to 9, and every digit exactly once in every
  scope.\<close>

definition solved :: "board \<Rightarrow> bool" where
  "solved board \<longleftrightarrow>
     length board = 81 \<and> (\<forall>v \<in> set board. 1 \<le> v \<and> v \<le> 9) \<and>
     (\<forall>s \<in> set all_scopes. \<forall>d \<in> {1..9}. count_list (scope_digits board s) d = 1)"

definition valid_position :: "position \<Rightarrow> bool" where
  "valid_position p = (case p of (grid, y, x) \<Rightarrow> grid < 9 \<and> y < 3 \<and> x < 3)"

definition position_index :: "position \<Rightarrow> nat" where
  "position_index p = (case p of (grid, y, x) \<Rightarrow> board_index grid y x)"

definition same_scope :: "position \<Rightarrow> position \<Rightarrow> bool" where
  "same_scope p q =
     (case p of (g, y, x) \<Rightarrow> case q of (g', y', x') \<Rightarrow>
        g = g' \<or> (g div 3 = g' div 3 \<and> y = y') \<or> (g mod 3 = g' mod 3 \<and> x = x'))"

lemma all_scopes_facts:
  "\<forall>s \<in> set all_scopes. distinct s \<and> length s = 9 \<and> (\<forall>p \<in> set s. valid_position p) \<and>
     (\<forall>p \<in> set s. \<forall>q \<in> set s. same_scope p q)"
  by code_simp

lemma scanned_facts:
  "\<forall>g \<in> set [0..<9]. \<forall>y \<in> set [0..<3]. \<forall>x \<in> set [0..<3].
     board_index g y x \<in> set (grid_indices g) \<and>
     board_index g y x \<in> set (row_indices (3 * (g div 3)) y) \<and>
     board_index g y x \<in> set (col_indices (g mod 3) x)"
  by code_simp

lemma scope_member_facts:
  "\<forall>g \<in> set [0..<9]. \<forall>y \<in> set [0..<3]. \<forall>x \<in> set [0..<3].
     (g, y, x) \<in> set (box_scope g) \<and>
     (g, y, x) \<in> set (row_scope (3 * (g div 3) + y)) \<and>
     (g, y, x) \<in> set (col_scope (3 * (g mod 3) + x))"
  by code_simp

lemma scope_number_facts:
  "\<forall>g \<in> set [0..<9]. \<forall>y \<in> set [0..<3]. 3 * (g div 3) + y < 9 \<and> 3 * (g mod 3) + y < 9"
  by code_simp


lemma valid_position_scan: "valid_position p \<longleftrightarrow> p \<in> set scan_order"
  by (cases p) (force simp: valid_position_def scan_order_def)

lemma position_index_inj:
  assumes "valid_position p" "valid_position q" "position_index p = position_index q"
  shows "p = q"
proof -
  have "map position_index scan_order = [0..<81]"
    using scan_order_indices by (simp add: position_index_def [abs_def])
  then have "distinct (map position_index scan_order)"
    by simp
  then have "inj_on position_index (set scan_order)"
    by (simp add: distinct_map)
  then show ?thesis
    using assms by (simp add: valid_position_scan inj_on_def)
qed

lemma position_index_less: "valid_position p \<Longrightarrow> position_index p < 81"
  by (cases p) (auto simp: valid_position_def position_index_def board_index_def)

lemma same_scope_sym: "same_scope p q \<Longrightarrow> same_scope q p"
  by (cases p; cases q) (auto simp: same_scope_def)

lemma scope_in_all_scopes:
  "n < 9 \<Longrightarrow> box_scope n \<in> set all_scopes \<and> row_scope n \<in> set all_scopes
     \<and> col_scope n \<in> set all_scopes"
  by (simp add: all_scopes_def)

lemma same_scope_shared:
  assumes "valid_position p" "valid_position q" "same_scope p q"
  shows "\<exists>s \<in> set all_scopes. p \<in> set s \<and> q \<in> set s"
proof -
  obtain g y x g' y' x' where p: "p = (g, y, x)" and q: "q = (g', y', x')"
    by (cases p; cases q) auto
  have v: "g \<in> set [0..<9]" "y \<in> set [0..<3]" "x \<in> set [0..<3]"
    and v': "g' \<in> set [0..<9]" "y' \<in> set [0..<3]" "x' \<in> set [0..<3]"
    using assms(1,2) by (simp_all add: p q valid_position_def)
  note fp = scope_member_facts [rule_format, OF v]
    and fq = scope_member_facts [rule_format, OF v']
  have row: "3 * (g div 3) + y < 9"
    using scope_number_facts [rule_format, OF v(1,2)] by simp
  have col: "3 * (g mod 3) + x < 9"
    using scope_number_facts [rule_format, OF v(1,3)] by simp
  have g: "g < 9"
    using v(1) by simp
  consider "g = g'" | "g div 3 = g' div 3" "y = y'" | "g mod 3 = g' mod 3" "x = x'"
    using assms(3) by (auto simp: p q same_scope_def)
  then show ?thesis
  proof cases
    case 1
    have "p \<in> set (box_scope g)" "q \<in> set (box_scope g)"
      using fp fq 1 by (simp_all add: p q)
    then show ?thesis
      using scope_in_all_scopes [OF g] by blast
  next
    case 2
    have "p \<in> set (row_scope (3 * (g div 3) + y))" "q \<in> set (row_scope (3 * (g div 3) + y))"
      using fp fq 2 by (simp_all add: p q)
    then show ?thesis
      using scope_in_all_scopes [OF row] by blast
  next
    case 3
    have "p \<in> set (col_scope (3 * (g mod 3) + x))" "q \<in> set (col_scope (3 * (g mod 3) + x))"
      using fp fq 3 by (simp_all add: p q)
    then show ?thesis
      using scope_in_all_scopes [OF col] by blast
  qed
qed

definition cell_position :: "Cell \<Rightarrow> position" where
  "cell_position c = (cell_grid_pos c, cell_y_pos c, cell_x_pos c)"

lemma cell_index_position: "cell_index c = position_index (cell_position c)"
  by (simp add: cell_index_def position_index_def cell_position_def)

lemma row_indices_band: "row_indices g y = row_indices (3 * (g div 3)) y"
  by (simp add: row_indices_def minus_mod_eq_mult_div)

lemma col_indices_stack: "col_indices g x = col_indices (g mod 3) x"
  by (simp add: col_indices_def)

lemma same_scope_scanned:
  assumes "valid_position q" "same_scope (g, y, x) q"
  shows "position_index q \<in> set (scope_indices g x y)"
proof -
  obtain g' y' x' where q: "q = (g', y', x')"
    by (cases q) auto
  have v': "g' \<in> set [0..<9]" "y' \<in> set [0..<3]" "x' \<in> set [0..<3]"
    using assms(1) by (simp_all add: q valid_position_def)
  note fq = scanned_facts [rule_format, OF v']
  consider "g = g'" | "g div 3 = g' div 3" "y = y'" | "g mod 3 = g' mod 3" "x = x'"
    using assms(2) by (auto simp: q same_scope_def)
  then show ?thesis
  proof cases
    case 1
    then show ?thesis
      using fq by (simp add: scope_indices_def q position_index_def)
  next
    case 2
    then have "row_indices g y = row_indices (3 * (g' div 3)) y'"
      using row_indices_band [of g y] by simp
    then show ?thesis
      using fq by (simp add: scope_indices_def q position_index_def)
  next
    case 3
    then have "col_indices g x = col_indices (g' mod 3) x'"
      using col_indices_stack [of g x] by simp
    then show ?thesis
      using fq by (simp add: scope_indices_def q position_index_def)
  qed
qed

text \<open>The same condition on pairs of positions, and the states of the solver: a board
  without repeated digits together with a list that holds one cell, with distinct
  digits as eligible values, for every position of the board that holds 0.\<close>

definition consistent :: "board \<Rightarrow> bool" where
  "consistent board \<longleftrightarrow>
     length board = 81 \<and> (\<forall>v \<in> set board. 0 \<le> v \<and> v \<le> 9) \<and>
     (\<forall>p q. valid_position p \<and> valid_position q \<and> p \<noteq> q \<and> same_scope p q
        \<and> board ! position_index p \<noteq> 0
        \<longrightarrow> board ! position_index p \<noteq> board ! position_index q)"

definition valid_cell :: "Cell \<Rightarrow> bool" where
  "valid_cell c \<longleftrightarrow>
     valid_position (cell_position c) \<and> distinct (eligible_values c)
     \<and> set (eligible_values c) \<subseteq> {1..9}"

definition covers :: "board \<Rightarrow> Cell list \<Rightarrow> bool" where
  "covers board unknowns \<longleftrightarrow>
     (\<forall>c \<in> set unknowns. valid_cell c) \<and> distinct (map cell_index unknowns) \<and>
     (\<forall>p. valid_position p \<longrightarrow>
        (board ! position_index p = 0 \<longleftrightarrow> position_index p \<in> cell_index ` set unknowns))"

definition solver_state :: "board \<Rightarrow> Cell list \<Rightarrow> bool" where
  "solver_state board unknowns \<longleftrightarrow> consistent board \<and> covers board unknowns"

definition fresh :: "board \<Rightarrow> Cell \<Rightarrow> bool" where
  "fresh board c \<longleftrightarrow> set (eligible_values c) \<inter> set (scope_values board c) = {}"

lemma scope_digits_nth:
  "scope_digits board s = map (\<lambda>p. board ! position_index p) s"
  by (simp add: scope_digits_def position_index_def [abs_def] board_get_def case_prod_unfold)

lemma distinct_filter_map_neq:
  "distinct (filter P (map f s)) \<Longrightarrow> p \<in> set s \<Longrightarrow> q \<in> set s \<Longrightarrow> p \<noteq> q \<Longrightarrow> P (f p)
   \<Longrightarrow> f p \<noteq> f q"
proof
  assume a: "distinct (filter P (map f s))" "p \<in> set s" "q \<in> set s" "p \<noteq> q" "P (f p)"
    and eq: "f p = f q"
  have "distinct (map f (filter (P \<circ> f) s))"
    using a(1) by (simp add: filter_map)
  then have "inj_on f (set (filter (P \<circ> f) s))"
    by (simp add: distinct_map)
  moreover have "p \<in> set (filter (P \<circ> f) s)" "q \<in> set (filter (P \<circ> f) s)"
    using a eq by simp_all
  ultimately show False
    using a(4) eq by (simp add: inj_on_def)
qed

lemma scope_unique_consistent:
  assumes "scope_unique board"
  shows "consistent board"
  unfolding consistent_def
proof (intro conjI allI impI)
  show "length board = 81" and "\<forall>v \<in> set board. 0 \<le> v \<and> v \<le> 9"
    using assms by (simp_all add: scope_unique_def)
next
  fix p q
  assume a: "valid_position p \<and> valid_position q \<and> p \<noteq> q \<and> same_scope p q
        \<and> board ! position_index p \<noteq> 0"
  then obtain s where s: "s \<in> set all_scopes" "p \<in> set s" "q \<in> set s"
    using same_scope_shared by blast
  then have "distinct (filter (\<lambda>v. v \<noteq> 0) (map (\<lambda>p. board ! position_index p) s))"
    using assms by (simp add: scope_unique_def scope_digits_nth)
  then show "board ! position_index p \<noteq> board ! position_index q"
    using a distinct_filter_map_neq
        [where P = "\<lambda>v. v \<noteq> 0" and f = "\<lambda>p. board ! position_index p", OF _ s(2,3)]
    by blast
qed

lemma count_list_distinct: "distinct xs \<Longrightarrow> x \<in> set xs \<Longrightarrow> count_list xs x = 1"
  by (induction xs) auto

lemma consistent_solved:
  assumes "consistent board" and "0 \<notin> set board"
  shows "solved board"
  unfolding solved_def
proof (intro conjI ballI)
  show len: "length board = 81"
    using assms(1) by (simp add: consistent_def)
  show "1 \<le> v" "v \<le> 9" if "v \<in> set board" for v
  proof -
    have "v \<noteq> 0" "0 \<le> v" "v \<le> 9"
      using that assms by (auto simp: consistent_def)
    then show "1 \<le> v" "v \<le> 9"
      by simp_all
  qed
next
  fix s d
  assume s: "s \<in> set all_scopes" and d: "d \<in> {1..9 :: int}"
  let ?f = "\<lambda>p. board ! position_index p"
  have facts: "distinct s" "length s = 9" "\<forall>p \<in> set s. valid_position p"
    "\<forall>p \<in> set s. \<forall>q \<in> set s. same_scope p q"
    using all_scopes_facts s by blast+
  have len: "length board = 81"
    using assms(1) by (simp add: consistent_def)
  have digit: "?f p \<in> {1..9}" if "p \<in> set s" for p
  proof -
    have "?f p \<in> set board"
      using that facts(3) position_index_less len by (metis nth_mem)
    then have "?f p \<noteq> 0" "0 \<le> ?f p" "?f p \<le> 9"
      using assms by (auto simp: consistent_def)
    then show ?thesis
      by simp
  qed
  have "inj_on ?f (set s)"
  proof (rule inj_onI)
    fix p q
    assume pq: "p \<in> set s" "q \<in> set s" "?f p = ?f q"
    show "p = q"
    proof (rule ccontr)
      assume "p \<noteq> q"
      moreover have "?f p \<noteq> 0"
        using digit [OF pq(1)] by auto
      ultimately have "?f p \<noteq> ?f q"
        using assms(1) facts(3,4) pq(1,2) unfolding consistent_def by blast
      with pq(3) show False
        by simp
    qed
  qed
  then have dist: "distinct (map ?f s)"
    using facts(1) by (simp add: distinct_map)
  then have "card (set (map ?f s)) = 9"
    using distinct_card [of "map ?f s"] facts(2) by simp
  moreover have "set (map ?f s) \<subseteq> {1..9}"
    using digit by auto
  ultimately have "set (map ?f s) = {1..9}"
    by (intro card_subset_eq) auto
  then have "d \<in> set (map ?f s)"
    using d by simp
  then show "count_list (scope_digits board s) d = 1"
    using dist by (simp add: scope_digits_nth count_list_distinct)
qed


lemma valid_cell_clean: "valid_cell c \<Longrightarrow> clean_cell c"
  by (auto simp: valid_cell_def clean_cell_def)

lemma valid_cell_narrowed: "valid_cell c \<Longrightarrow> valid_cell (narrowed board c)"
  using narrowed_subset [of board c]
  by (auto simp: valid_cell_def cell_position_def narrowed_def distinct_fold_remove1)

lemma cell_index_narrowed [simp]: "cell_index (narrowed board c) = cell_index c"
  by (simp add: cell_index_def)

lemma fresh_narrowed: "valid_cell c \<Longrightarrow> fresh board (narrowed board c)"
  by (auto simp: fresh_def narrowed_filter valid_cell_def)

lemma covers_same_indices:
  assumes "covers board unknowns" and "\<forall>c \<in> set unknowns'. valid_cell c"
    and "map cell_index unknowns' = map cell_index unknowns"
  shows "covers board unknowns'"
proof -
  have "cell_index ` set unknowns' = cell_index ` set unknowns"
    using assms(3) by (metis set_map)
  then show ?thesis
    using assms unfolding covers_def by simp
qed

lemma scope_value_excluded:
  assumes "valid_position q" and "same_scope (cell_position c) q"
    and "v \<noteq> 0" and "v \<notin> set (scope_values board c)"
  shows "board ! position_index q \<noteq> v"
proof
  assume "board ! position_index q = v"
  moreover have "position_index q
      \<in> set (scope_indices (cell_grid_pos c) (cell_x_pos c) (cell_y_pos c))"
    using assms(1,2) by (intro same_scope_scanned) (simp_all add: cell_position_def)
  ultimately have "v \<in> set (scope_values board c)"
    using assms(3) by (auto simp: scope_values_def)
  with assms(4) show False
    by simp
qed

lemma consistent_commit:
  assumes "consistent board" and c: "valid_cell c"
    and v: "v \<in> {1..9}" "v \<notin> set (scope_values board c)"
  shows "consistent (board[cell_index c := v])"
  unfolding consistent_def
proof (intro conjI allI impI ballI)
  let ?b = "board[cell_index c := v]"
  have len: "length board = 81"
    using assms(1) by (simp add: consistent_def)
  show "length ?b = 81"
    using len by simp
  show "0 \<le> w" "w \<le> 9" if "w \<in> set ?b" for w
  proof -
    have "w = v \<or> w \<in> set board"
      using that set_update_subset_insert [of board "cell_index c" v] by auto
    then show "0 \<le> w" "w \<le> 9"
      using v(1) assms(1) by (auto simp: consistent_def)
  qed
  fix p q
  assume a: "valid_position p \<and> valid_position q \<and> p \<noteq> q \<and> same_scope p q
        \<and> ?b ! position_index p \<noteq> 0"
  let ?p0 = "cell_position c"
  have p0: "valid_position ?p0" "cell_index c = position_index ?p0"
    using c by (simp_all add: valid_cell_def cell_index_position)
  have v0: "v \<noteq> 0"
    using v(1) by auto
  have lt: "position_index p < length board" "position_index q < length board"
    using a len position_index_less by simp_all
  have vp: "valid_position p" and vq: "valid_position q" and ne: "p \<noteq> q"
    and pq: "same_scope p q" and nz: "?b ! position_index p \<noteq> 0"
    using a by blast+
  have excluded: "board ! position_index r \<noteq> v" if "valid_position r" "same_scope ?p0 r" for r
    using that v0 v(2) by (rule scope_value_excluded)
  have other: "position_index r \<noteq> cell_index c" if "valid_position r" "r \<noteq> ?p0" for r
    using that p0 position_index_inj by metis
  show "?b ! position_index p \<noteq> ?b ! position_index q"
  proof (cases "p = ?p0")
    case True
    then have "q \<noteq> ?p0" "same_scope ?p0 q"
      using ne pq by simp_all
    then have "position_index q \<noteq> cell_index c" "board ! position_index q \<noteq> v"
      using other [OF vq] excluded [OF vq] by simp_all
    then show ?thesis
      using True lt p0 by simp
  next
    case False
    then have pne: "position_index p \<noteq> cell_index c"
      using other [OF vp] by simp
    show ?thesis
    proof (cases "q = ?p0")
      case True
      then have "same_scope ?p0 p"
        using pq same_scope_sym by blast
      then have "board ! position_index p \<noteq> v"
        using excluded [OF vp] by simp
      then show ?thesis
        using True lt p0 pne by simp
    next
      case qne: False
      then have qn: "position_index q \<noteq> cell_index c"
        using other [OF vq] by simp
      have "board ! position_index p \<noteq> 0"
        using nz pne by simp
      then have "board ! position_index p \<noteq> board ! position_index q"
        using assms(1) vp vq ne pq unfolding consistent_def by blast
      then show ?thesis
        using pne qn by simp
    qed
  qed
qed

lemma covers_commit:
  assumes "covers board (seen @ c # rest)" and len: "length board = 81" and "v \<noteq> 0"
  shows "covers (board[cell_index c := v]) (seen @ rest)"
  unfolding covers_def
proof (intro conjI allI impI)
  show "\<forall>c \<in> set (seen @ rest). valid_cell c" and d: "distinct (map cell_index (seen @ rest))"
    using assms(1) by (auto simp: covers_def)
  fix p
  assume p: "valid_position p"
  have notin: "cell_index c \<notin> cell_index ` set (seen @ rest)"
    using assms(1) by (auto simp: covers_def)
  have lt: "position_index p < length board"
    using p len position_index_less by simp
  have old: "board ! position_index p = 0
      \<longleftrightarrow> position_index p \<in> cell_index ` set (seen @ c # rest)"
    using assms(1) p unfolding covers_def by blast
  show "board[cell_index c := v] ! position_index p = 0
      \<longleftrightarrow> position_index p \<in> cell_index ` set (seen @ rest)"
  proof (cases "position_index p = cell_index c")
    case True
    then show ?thesis
      using lt notin assms(3) by simp
  next
    case False
    then show ?thesis
      using old by auto
  qed
qed


lemma covers_valid: "covers board unknowns \<Longrightarrow> c \<in> set unknowns \<Longrightarrow> valid_cell c"
  unfolding covers_def by blast

lemma solver_state_covers: "solver_state board unknowns \<Longrightarrow> covers board unknowns"
  unfolding solver_state_def by blast

lemma solver_state_consistent: "solver_state board unknowns \<Longrightarrow> consistent board"
  unfolding solver_state_def by blast

lemma solver_state_length: "solver_state board unknowns \<Longrightarrow> length board = 81"
  unfolding solver_state_def consistent_def by blast

lemma solver_state_valid: "solver_state board unknowns \<Longrightarrow> c \<in> set unknowns \<Longrightarrow> valid_cell c"
  using covers_valid solver_state_covers by blast

lemma solver_state_replace:
  assumes "solver_state board (seen @ c # rest)" and "valid_cell c'"
    and "cell_index c' = cell_index c"
  shows "solver_state board (seen @ c' # rest)"
proof -
  have "valid_cell d" if "d \<in> set (seen @ c' # rest)" for d
  proof (cases "d = c'")
    case False
    then have "d \<in> set (seen @ c # rest)"
      using that by auto
    then show ?thesis
      using assms(1) by (rule solver_state_valid [rotated])
  qed (simp add: assms(2))
  then have "\<forall>d \<in> set (seen @ c' # rest). valid_cell d"
    by blast
  moreover have "map cell_index (seen @ c' # rest) = map cell_index (seen @ c # rest)"
    using assms(3) by simp
  ultimately have "covers board (seen @ c' # rest)"
    using covers_same_indices [OF solver_state_covers [OF assms(1)]] by blast
  then show ?thesis
    using solver_state_consistent [OF assms(1)] unfolding solver_state_def by blast
qed

lemma solver_state_commit:
  assumes "solver_state board (seen @ c # rest)"
    and "v \<in> {1..9}" "v \<notin> set (scope_values board c)"
  shows "solver_state (board[cell_index c := v]) (seen @ rest)"
proof -
  have c: "valid_cell c"
    using assms(1) by (rule solver_state_valid) simp
  have len: "length board = 81"
    using assms(1) by (rule solver_state_length)
  have "v \<noteq> 0"
    using assms(2) by auto
  then have "covers (board[cell_index c := v]) (seen @ rest)"
    using covers_commit [OF solver_state_covers [OF assms(1)] len] by blast
  moreover have "consistent (board[cell_index c := v])"
    using solver_state_consistent [OF assms(1)] c assms(2,3) by (rule consistent_commit)
  ultimately show ?thesis
    unfolding solver_state_def by blast
qed

lemma singleton_narrowed:
  assumes "valid_cell c" and "length (eligible_values (narrowed board c)) = 1"
  shows "hd (eligible_values (narrowed board c)) \<in> {1..9}"
    and "hd (eligible_values (narrowed board c)) \<notin> set (scope_values board c)"
proof -
  let ?l = "eligible_values (narrowed board c)"
  have "hd ?l \<in> set ?l"
    using assms(2) by (cases ?l) auto
  moreover have "set ?l \<subseteq> {1..9}" "set ?l \<inter> set (scope_values board c) = {}"
    using valid_cell_narrowed [OF assms(1), of board] fresh_narrowed [OF assms(1), of board]
    by (auto simp: valid_cell_def fresh_def)
  ultimately show "hd ?l \<in> {1..9}" and "hd ?l \<notin> set (scope_values board c)"
    by blast+
qed

lemma elimination_pass_state:
  "elimination_pass board seen rest m = (r, b', u', m') \<Longrightarrow>
   solver_state board (seen @ rest) \<Longrightarrow> solver_state b' u'"
proof (induction rest arbitrary: board seen m)
  case Nil
  then show ?case by simp
next
  case (Cons c rest)
  then have c: "valid_cell c"
    using solver_state_valid by auto
  let ?c' = "narrowed board c"
  let ?v = "hd (eligible_values ?c')"
  have replaced: "solver_state board (seen @ ?c' # rest)"
    using Cons.prems(2) valid_cell_narrowed [OF c] by (rule solver_state_replace) simp
  have commit: "solver_state (board[cell_index c := ?v]) (seen @ rest)"
    if "length (eligible_values ?c') = 1"
    using Cons.prems(2) singleton_narrowed [OF c that] by (rule solver_state_commit)
  note unfold = elimination_pass_Cons [OF valid_cell_clean [OF c], of board seen rest m]
  consider (empty) "eligible_values c = []"
    | (contradiction) "eligible_values c \<noteq> []" "eligible_values ?c' = []"
    | (single) "eligible_values c \<noteq> []" "eligible_values ?c' \<noteq> []"
        "length (eligible_values ?c') = 1"
    | (several) "eligible_values c \<noteq> []" "eligible_values ?c' \<noteq> []"
        "length (eligible_values ?c') \<noteq> 1"
    by blast
  then show ?case
  proof cases
    case empty
    then show ?thesis
      using Cons.prems unfold by simp
  next
    case contradiction
    then show ?thesis
      using Cons.prems(1) unfold replaced by auto
  next
    case single
    then have "elimination_pass (board[cell_index c := ?v]) seen rest True = (r, b', u', m')"
      using Cons.prems(1) unfold by simp
    then show ?thesis
      using commit [OF single(3)] by (rule Cons.IH)
  next
    case several
    then have "elimination_pass board (seen @ [?c']) rest m = (r, b', u', m')"
      using Cons.prems(1) unfold by simp
    then show ?thesis
      using replaced Cons.IH [of board "seen @ [?c']" m] by simp
  qed
qed

lemma solve_elimination_method_state:
  assumes "solve_elimination_method board unknowns = (ret, b', u')"
    and "solver_state board unknowns"
  shows "solver_state b' u' \<and> (ret = 1 \<longrightarrow> (\<forall>c \<in> set u'. fresh b' c))"
proof -
  have run: "elimination_while_loop board unknowns = (ret, b', u')"
    using assms(1) by (simp add: solve_elimination_method_def)
  then have state: "solver_state board unknowns \<Longrightarrow> solver_state b' u'"
  proof (induction rule: elimination_while_loop_induct)
    case (again board unknowns b1 u1 ret b' u')
    then show ?case
      using elimination_pass_state [OF again(1)] by simp
  qed (auto dest: elimination_pass_state)
  have "\<forall>c \<in> set u'. fresh b' c" if one: "ret = 1"
  proof -
    have "\<forall>c \<in> set unknowns. clean_cell c"
      using assms(2) valid_cell_clean by (auto simp: solver_state_def covers_def)
    then obtain u0 where u0: "\<forall>c \<in> set u0. clean_cell c"
      and last: "elimination_pass b' [] u0 False = (None, b', u', False)"
      using elimination_while_loop_last_pass [OF run one] by blast
    then have "u' = map (narrowed b') u0"
      using elimination_pass_unmodified [OF last u0] by simp
    moreover have "fresh b' (narrowed b' c)" if "clean_cell c" for c
      using that by (auto simp: fresh_def narrowed_filter clean_cell_def)
    ultimately show ?thesis
      using u0 by auto
  qed
  with state assms(2) show ?thesis
    by simp
qed

lemma empty_unknowns_list_state:
  assumes "scope_unique board"
  shows "solver_state board (empty_unknowns_list board)"
proof -
  have len: "length board = 81"
    using assms by (simp add: scope_unique_def)
  have valid: "valid_cell c" if "c \<in> set (empty_unknowns_list board)" for c
  proof -
    from that obtain g y x where "(g, y, x) \<in> set scan_order" and "c = cell_create g x y 9"
      by (auto simp: empty_unknowns_list_eq)
    then have "valid_position (cell_position c)" "eligible_values c = [9, 8, 7, 6, 5, 4, 3, 2, 1]"
      by (simp_all add: valid_position_scan cell_position_def cell_create_def
          get_eligible_values_new_9)
    then show ?thesis
      by (simp add: valid_cell_def)
  qed
  have "distinct (map cell_index (empty_unknowns_list board))"
    by (simp add: empty_unknowns_list_indices)
  moreover have "board ! position_index p = 0
      \<longleftrightarrow> position_index p \<in> cell_index ` set (empty_unknowns_list board)"
    if "valid_position p" for p
  proof -
    have "cell_index ` set (empty_unknowns_list board)
        = set (map cell_index (empty_unknowns_list board))"
      by simp
    then show ?thesis
      using position_index_less [OF that]
      unfolding empty_unknowns_list_indices by simp
  qed
  ultimately have "covers board (empty_unknowns_list board)"
    using valid by (simp add: covers_def)
  then show ?thesis
    using scope_unique_consistent [OF assms] by (simp add: solver_state_def)
qed

lemma solver_state_solved:
  assumes "solver_state board []"
  shows "solved board"
proof -
  have len: "length board = 81"
    using assms by (simp add: solver_state_def consistent_def)
  have "0 \<notin> set board"
  proof
    assume "0 \<in> set board"
    then obtain i where i: "i < 81" "board ! i = 0"
      using len by (metis in_set_conv_nth)
    then have "i \<in> set (map position_index scan_order)"
      using scan_order_indices by (simp add: position_index_def [abs_def])
    then obtain p where p: "valid_position p" "position_index p = i"
      by (auto simp: valid_position_scan)
    have "covers board []"
      using assms by (simp add: solver_state_def)
    then have "board ! position_index p = 0
        \<longleftrightarrow> position_index p \<in> cell_index ` set ([] :: Cell list)"
      using p(1) unfolding covers_def by blast
    then have "board ! position_index p \<noteq> 0"
      by simp
    then show False
      using p(2) i(2) by simp
  qed
  then show ?thesis
    using assms by (intro consistent_solved) (simp add: solver_state_def)
qed

lemma covers_reversed:
  assumes "covers board unknowns" and "\<forall>c \<in> set unknowns'. valid_cell c"
    and "map cell_index unknowns' = rev (map cell_index unknowns)"
  shows "covers board unknowns'"
proof -
  have "set (map cell_index unknowns') = set (map cell_index unknowns)"
    using assms(3) by simp
  then have "cell_index ` set unknowns' = cell_index ` set unknowns"
    by simp
  moreover have "distinct (map cell_index unknowns')"
    using assms(1,3) unfolding covers_def by simp
  ultimately show ?thesis
    using assms(1,2) unfolding covers_def by simp
qed

lemma valid_cell_duplicate:
  assumes "valid_cell c"
  shows "valid_cell (the (cell_duplicate c 9))"
    and "eligible_values (the (cell_duplicate c 9)) = filter (\<lambda>v. v \<in> set (eligible_values c))
          (get_eligible_values_new 9)"
    and "set (eligible_values (the (cell_duplicate c 9))) = set (eligible_values c)"
proof -
  let ?d = "the (cell_duplicate c 9)"
  have d: "cell_duplicate c (int 9) = Some ?d"
    using cell_duplicate_total [of c 9] by auto
  show el: "eligible_values ?d = filter (\<lambda>v. v \<in> set (eligible_values c))
          (get_eligible_values_new 9)"
    using cell_duplicate_eq [of c 9] by simp
  show set: "set (eligible_values ?d) = set (eligible_values c)"
    using cell_duplicate_set [OF d] assms by (auto simp: valid_cell_def)
  have "distinct (eligible_values ?d)"
    unfolding el using distinct_eligible_values_new [of 9] by simp
  moreover have "cell_position ?d = cell_position c"
    using cell_duplicate_pos [OF d] by (simp add: cell_position_def)
  ultimately show "valid_cell ?d"
    using assms set by (simp add: valid_cell_def)
qed

lemma scope_values_position:
  "cell_position c' = cell_position c \<Longrightarrow> scope_values board c' = scope_values board c"
  by (simp add: scope_values_def cell_position_def)

lemma solver_state_duplicates:
  assumes "solver_state board unknowns"
  shows "solver_state board (rev (map (\<lambda>c. the (cell_duplicate c 9)) unknowns))"
proof -
  let ?ud = "rev (map (\<lambda>c. the (cell_duplicate c 9)) unknowns)"
  have "\<forall>c \<in> set ?ud. valid_cell c"
    using solver_state_valid [OF assms] valid_cell_duplicate(1) by auto
  moreover have "map cell_index ?ud = rev (map cell_index unknowns)"
    by (simp add: rev_map cell_index_duplicate comp_def)
  ultimately have "covers board ?ud"
    using covers_reversed [OF solver_state_covers [OF assms]] by blast
  then show ?thesis
    using solver_state_consistent [OF assms] unfolding solver_state_def by blast
qed

lemma elimination_pass_stops:
  "\<exists>c \<in> set rest. eligible_values c = [] \<Longrightarrow>
   elimination_pass board seen rest m = (r, b', u', m') \<Longrightarrow> r \<noteq> None"
proof (induction rest arbitrary: board seen m)
  case Nil
  then show ?case by simp
next
  case (Cons c rest)
  obtain ok c' where uc: "update_constraints board c (cell_grid_pos c)
        (cell_x_pos c) (cell_y_pos c) = (ok, c')"
    by force
  show ?case
  proof (cases "eligible_values c = []")
    case True
    then show ?thesis
      using Cons.prems(2) by (auto simp: elimination_pass.simps(2))
  next
    case False
    then have rest: "\<exists>c \<in> set rest. eligible_values c = []"
      using Cons.prems(1) by auto
    show ?thesis
      using Cons.prems(2) uc False
        Cons.IH [OF rest, of "board_put board (cell_grid_pos c) (cell_y_pos c) (cell_x_pos c)
                    (hd (eligible_values c'))" seen True]
        Cons.IH [OF rest, of board "seen @ [c']" m]
      by (cases ok) (auto simp: elimination_pass.simps(2) split: if_splits)
  qed
qed

lemma solve_elimination_method_stops:
  assumes "\<exists>c \<in> set unknowns. eligible_values c = []"
    and "solve_elimination_method board unknowns = (ret, b', u')"
  shows "ret \<noteq> 1"
proof -
  obtain r b1 u1 m where pass: "elimination_pass board [] unknowns False = (r, b1, u1, m)"
    by (metis prod_cases4)
  then obtain v where v: "r = Some v"
    using elimination_pass_stops [OF assms(1) pass] by auto
  then have "v = 0 \<or> v = - 1"
    using elimination_pass_return [of board "[]" unknowns False v b1 u1 m] pass by auto
  moreover have "ret = v"
    using assms(2) pass v
    by (simp add: solve_elimination_method_def elimination_while_loop.simps [of board unknowns]
        elimination_for_loop_pass)
  ultimately show ?thesis
    by auto
qed


lemma backtrack_while_loop_stops:
  assumes "\<exists>c \<in> set unknowns. eligible_values c = []"
    and "- 1 \<notin> set (eligible_values cell)"
    and "backtrack_while_loop recurse board unknowns cell = Some (ret, b', u')"
  shows "ret \<noteq> 1"
  using assms(2,3)
proof (induction "eligible_values cell" arbitrary: cell)
  case Nil
  then show ?case
    by (simp add: backtrack_while_loop_Nil)
next
  case (Cons v vs)
  then have el: "eligible_values cell = v # vs" and v: "v \<noteq> - 1"
    and vs: "- 1 \<notin> set vs"
    by (metis, metis list.set_intros(1), metis list.set_intros(2))
  let ?cell' = "cell\<lparr>eligible_values := vs\<rparr>"
  let ?ud = "rev (map (\<lambda>c. the (cell_duplicate c 9)) unknowns)"
  have nxt: "ret \<noteq> 1"
    if "backtrack_while_loop recurse board unknowns ?cell' = Some (ret, b', u')"
    using Cons.hyps(1) [of ?cell'] vs that by simp
  obtain c where c: "c \<in> set unknowns" "eligible_values c = []"
    using assms(1) by blast
  have "eligible_values (the (cell_duplicate c 9)) = []"
    using cell_duplicate_eq [of c 9] c(2) by simp
  then have empty: "\<exists>c \<in> set ?ud. eligible_values c = []"
    using c(1) by auto
  obtain elret bd ud where run: "solve_elimination_method
            (board_put (duplicate_board indeterminate_board board)
               (cell_grid_pos cell) (cell_y_pos cell) (cell_x_pos cell) v) ?ud = (elret, bd, ud)"
    by (metis prod_cases3)
  then have "elret \<noteq> 1"
    using solve_elimination_method_stops [OF empty] by blast
  then show ?case
    using Cons.prems(2) run nxt
    by (auto simp: backtrack_while_loop_Cons [OF el v] split: if_splits)
qed

lemma solve_backtrack_method_stops:
  assumes "\<exists>c \<in> set unknowns. eligible_values c = []"
    and "solve_backtrack_method depth board unknowns = Some (ret, b', u')"
  shows "ret \<noteq> 1"
proof (cases depth)
  case 0
  with assms(2) show ?thesis by simp
next
  case (Suc d)
  obtain temp_cell rest where u: "unknowns = temp_cell # rest"
    using assms(1) by (cases unknowns) auto
  show ?thesis
  proof (cases "eligible_values temp_cell = []")
    case True
    then show ?thesis
      using assms(2) Suc u
      by (simp add: list_is_empty_def list_inspect_def list_length_def
          cell_eligible_values_length_def)
  next
    case False
    then have rest: "\<exists>c \<in> set rest. eligible_values c = []"
      using assms(1) u by auto
    obtain cell where dup: "cell_duplicate temp_cell (int 9) = Some cell"
      using cell_duplicate_total by blast
    then have clean: "- 1 \<notin> set (eligible_values cell)"
      using cell_duplicate_set [OF dup] by auto
    have "backtrack_while_loop (solve_backtrack_method d) board rest cell = Some (ret, b', u')"
      using assms(2) Suc u False dup
      by (simp add: list_is_empty_def list_inspect_def list_remove_def list_length_def
          cell_eligible_values_length_def)
    then show ?thesis
      using rest clean backtrack_while_loop_stops by blast
  qed
qed

lemma backtrack_while_loop_solved:
  assumes rec: "\<And>b u b' u'. solver_state b u \<Longrightarrow> \<forall>c \<in> set u. fresh b c \<Longrightarrow>
      recurse b u = Some (1, b', u') \<Longrightarrow> solved b'"
    and "solver_state board (cell # rest)" and "fresh board cell"
    and "backtrack_while_loop recurse board rest cell = Some (1, b', u')"
  shows "solved b'"
  using assms(2-)
proof (induction "eligible_values cell" arbitrary: cell)
  case Nil
  then show ?case
    by (simp add: backtrack_while_loop_Nil)
next
  case (Cons v vs)
  have el: "eligible_values cell = v # vs"
    using Cons.hyps(2) by simp
  have cell: "valid_cell cell"
    using Cons.prems(1) by (rule solver_state_valid) simp
  then have v: "v \<in> {1..9}" "v \<noteq> - 1"
    using el by (auto simp: valid_cell_def)
  have len: "length board = 81"
    using Cons.prems(1) by (rule solver_state_length)
  let ?cell' = "cell\<lparr>eligible_values := vs\<rparr>"
  let ?ud = "rev (map (\<lambda>c. the (cell_duplicate c 9)) rest)"
  let ?bd = "board[cell_index cell := v]"
  have "valid_cell ?cell'" "cell_index ?cell' = cell_index cell"
    using cell el by (auto simp: valid_cell_def cell_position_def cell_index_def)
  then have "solver_state board ([] @ ?cell' # rest)"
    using Cons.prems(1) by (intro solver_state_replace [of board "[]" cell rest ?cell']) simp_all
  moreover have "fresh board ?cell'"
    using Cons.prems(2) el by (auto simp: fresh_def scope_values_def)
  ultimately have nxt: "solved b'"
    if "backtrack_while_loop recurse board rest ?cell' = Some (1, b', u')"
    using Cons.hyps(1) [of ?cell'] that by simp
  have "v \<notin> set (scope_values board cell)"
    using Cons.prems(2) el by (auto simp: fresh_def)
  then have "solver_state ?bd ([] @ rest)"
    using Cons.prems(1) v(1) by (intro solver_state_commit) simp_all
  then have start: "solver_state ?bd ?ud"
    using solver_state_duplicates by simp
  have put: "board_put (duplicate_board indeterminate_board board)
      (cell_grid_pos cell) (cell_y_pos cell) (cell_x_pos cell) v = ?bd"
    using len by (simp add: board_put_cell_index)
  obtain elret bd ud where run: "solve_elimination_method ?bd ?ud = (elret, bd, ud)"
    by (metis prod_cases3)
  have state: "solver_state bd ud" and fresh: "elret = 1 \<Longrightarrow> \<forall>c \<in> set ud. fresh bd c"
    using solve_elimination_method_state [OF run start] by simp_all
  have success: "solved (duplicate_board board bd')"
    if "elret = 1" "recurse bd ud = Some (1, bd', ud')" for bd' ud'
  proof -
    have "solved bd'"
      using state fresh [OF that(1)] that(2) by (rule rec)
    then show ?thesis
      using len by (simp add: duplicate_board_eq solved_def)
  qed
  show ?case
    using Cons.prems(3) run nxt success
    by (auto simp: backtrack_while_loop_Cons [OF el v(2)] put split: if_splits option.splits)
qed

lemma solve_backtrack_method_solved:
  "solver_state board unknowns \<Longrightarrow> \<forall>c \<in> set unknowns. fresh board c \<Longrightarrow>
   solve_backtrack_method depth board unknowns = Some (1, b', u') \<Longrightarrow> solved b'"
proof (induction depth arbitrary: board unknowns b' u')
  case 0
  then show ?case by simp
next
  case (Suc depth)
  show ?case
  proof (cases unknowns)
    case Nil
    then show ?thesis
      using Suc.prems solver_state_solved by (simp add: list_is_empty_def)
  next
    case (Cons temp_cell rest)
    have temp: "valid_cell temp_cell"
      using Suc.prems(1) Cons solver_state_valid by simp
    obtain cell where dup: "cell_duplicate temp_cell (int 9) = Some cell"
      using cell_duplicate_total by blast
    then have the: "cell = the (cell_duplicate temp_cell 9)"
      by simp
    have cell: "valid_cell cell" "set (eligible_values cell) = set (eligible_values temp_cell)"
      using valid_cell_duplicate [OF temp] the by simp_all
    have pos: "cell_position cell = cell_position temp_cell"
      using cell_duplicate_pos [OF dup] by (simp add: cell_position_def)
    have "cell_index cell = cell_index temp_cell"
      unfolding the by (rule cell_index_duplicate)
    then have state: "solver_state board (cell # rest)"
      using Suc.prems(1) Cons cell(1)
        solver_state_replace [of board "[]" temp_cell rest cell] by simp
    have fresh: "fresh board cell"
      using Suc.prems(2) Cons cell(2) scope_values_position [OF pos]
      by (simp add: fresh_def)
    have loop: "backtrack_while_loop (solve_backtrack_method depth) board rest cell
        = Some (1, b', u')"
      using Suc.prems(3) Cons dup
      by (auto simp: list_is_empty_def list_inspect_def list_remove_def list_length_def
          split: if_splits)
    show ?thesis
      using Suc.IH state fresh loop by (rule backtrack_while_loop_solved)
  qed
qed

text \<open>
  Claim C1. Let the board given to \<open>solve_sudoku\<close> hold 81 values from 0 to 9, and no
  digit from 1 to 9 twice in any grid, row or column. If no position is unknown, the
  board is solved as it stands. If the elimination method leaves no cell in the list,
  the board it leaves is solved. If \<open>solve_backtrack_method\<close>, called on what the
  elimination method left, returns 1, the board it hands back is solved, and it is the
  board that \<open>solve_sudoku\<close> returns. Solved means: 81 digits from 1 to 9, and every
  digit from 1 to 9 exactly once in each of the 9 grids, 9 rows and 9 columns.
\<close>

theorem solved_board_valid:
  assumes "scope_unique board"
    and "solve_elimination_method board (empty_unknowns_list board) = (elret, board1, unknowns1)"
  shows "(empty_unknowns_list board = [] \<longrightarrow> solved board) \<and>
         (unknowns1 = [] \<longrightarrow> solved board1) \<and>
         (solve_backtrack_method depth board1 unknowns1 = Some (SUCCESS_RET, board2, unknowns2) \<longrightarrow>
            solved board2 \<and>
            (empty_unknowns_list board \<noteq> [] \<longrightarrow>
               solve_sudoku depth board = Some (Returned board2)))"
proof -
  have start: "solver_state board (empty_unknowns_list board)"
    using assms(1) by (rule empty_unknowns_list_state)
  have state: "solver_state board1 unknowns1"
    and fresh: "elret = 1 \<Longrightarrow> \<forall>c \<in> set unknowns1. fresh board1 c"
    using solve_elimination_method_state [OF assms(2) start] by simp_all
  have none: "solved board" if "empty_unknowns_list board = []"
    using start that solver_state_solved by simp
  have emptied: "solved board1" if "unknowns1 = []"
    using state that solver_state_solved by simp
  have run: "elimination_while_loop board (empty_unknowns_list board) = (elret, board1, unknowns1)"
    using assms(2) by (simp add: solve_elimination_method_def)
  have clean: "- 1 \<notin> set (eligible_values c)" if "c \<in> set (empty_unknowns_list board)" for c
    using solver_state_valid [OF start that] by (auto simp: valid_cell_def)
  have search: "solved board2 \<and>
      (empty_unknowns_list board \<noteq> [] \<longrightarrow> solve_sudoku depth board = Some (Returned board2))"
    if bt: "solve_backtrack_method depth board1 unknowns1 = Some (1, board2, unknowns2)"
  proof -
    have one: "elret = 1"
      using elimination_while_loop_return [OF run] clean
        solve_backtrack_method_stops [OF _ bt] by blast
    have "solved board2"
      using state fresh [OF one] bt by (rule solve_backtrack_method_solved)
    moreover have "solve_sudoku depth board = Some (Returned board2)"
      if "empty_unknowns_list board \<noteq> []"
      using that assms(2) one bt by (simp add: solve_sudoku_def list_is_empty_def)
    ultimately show ?thesis
      by blast
  qed
  show ?thesis
    using none emptied search by blast
qed

theorem solved_board_valid_witness:
  "scope_unique search_board \<and>
   solve_elimination_method search_board (empty_unknowns_list search_board)
     = (1, search_board,
        [\<lparr>cell_grid_pos = 2, cell_x_pos = 1, cell_y_pos = 2, eligible_values = [6, 1]\<rparr>,
         \<lparr>cell_grid_pos = 2, cell_x_pos = 1, cell_y_pos = 0, eligible_values = [6, 1]\<rparr>,
         \<lparr>cell_grid_pos = 0, cell_x_pos = 2, cell_y_pos = 2, eligible_values = [6, 1]\<rparr>,
         \<lparr>cell_grid_pos = 0, cell_x_pos = 2, cell_y_pos = 0, eligible_values = [6, 1]\<rparr>]) \<and>
   solve_backtrack_method 2 search_board
     [\<lparr>cell_grid_pos = 2, cell_x_pos = 1, cell_y_pos = 2, eligible_values = [6, 1]\<rparr>,
      \<lparr>cell_grid_pos = 2, cell_x_pos = 1, cell_y_pos = 0, eligible_values = [6, 1]\<rparr>,
      \<lparr>cell_grid_pos = 0, cell_x_pos = 2, cell_y_pos = 2, eligible_values = [6, 1]\<rparr>,
      \<lparr>cell_grid_pos = 0, cell_x_pos = 2, cell_y_pos = 0, eligible_values = [6, 1]\<rparr>]
     = Some (1, search_solution,
        [\<lparr>cell_grid_pos = 2, cell_x_pos = 1, cell_y_pos = 0, eligible_values = [6, 1]\<rparr>,
         \<lparr>cell_grid_pos = 0, cell_x_pos = 2, cell_y_pos = 2, eligible_values = [6, 1]\<rparr>,
         \<lparr>cell_grid_pos = 0, cell_x_pos = 2, cell_y_pos = 0, eligible_values = [6, 1]\<rparr>]) \<and>
   solved search_solution \<and>
   solve_sudoku 2 search_board = Some (Returned search_solution) \<and>
   scope_unique two_unknowns_board \<and>
   solve_elimination_method two_unknowns_board (empty_unknowns_list two_unknowns_board)
     = (1, complete_board, []) \<and>
   empty_unknowns_list complete_board = [] \<and>
   solved complete_board"
proof -
  let ?u1 = "[\<lparr>cell_grid_pos = 2, cell_x_pos = 1, cell_y_pos = 2, eligible_values = [6, 1]\<rparr>,
      \<lparr>cell_grid_pos = 2, cell_x_pos = 1, cell_y_pos = 0, eligible_values = [6, 1]\<rparr>,
      \<lparr>cell_grid_pos = 0, cell_x_pos = 2, cell_y_pos = 2, eligible_values = [6, 1]\<rparr>,
      \<lparr>cell_grid_pos = 0, cell_x_pos = 2, cell_y_pos = 0, eligible_values = [6, 1]\<rparr>]"
  have unique: "scope_unique search_board"
    by code_simp
  have el: "solve_elimination_method search_board (empty_unknowns_list search_board)
      = (1, search_board, ?u1)"
    by code_simp
  have bt: "solve_backtrack_method 2 search_board ?u1 = Some (1, search_solution, tl ?u1)"
    by code_simp
  have ne: "empty_unknowns_list search_board \<noteq> []"
    by code_simp
  have unique2: "scope_unique two_unknowns_board"
    by code_simp
  have el2: "solve_elimination_method two_unknowns_board (empty_unknowns_list two_unknowns_board)
      = (1, complete_board, [])"
    by code_simp
  have full: "empty_unknowns_list complete_board = []"
    by code_simp
  note search = solved_board_valid [OF unique el, of 2 search_solution "tl ?u1",
      THEN conjunct2, THEN conjunct2, THEN mp, OF bt]
  note alone = solved_board_valid [OF unique2 el2, of 0 complete_board "[]",
      THEN conjunct2, THEN conjunct1, THEN mp, OF refl]
  have "solved search_solution"
    using search by (rule conjunct1)
  moreover have "solve_sudoku 2 search_board = Some (Returned search_solution)"
    using search ne by blast
  moreover have "solved complete_board"
    using alone .
  ultimately show ?thesis
    using unique el bt unique2 el2 full by simp
qed

end
